theory Spec2Isabelle
  imports Main "HOL-Library.Word"
begin

unbundle bit_operations_syntax

section \<open>JavaScript values: bytes, strings, array buffers and data views\<close>

text \<open>
  An \<open>ArrayBuffer\<close> is a list of bytes. A JavaScript string is a sequence of 16-bit code
  units; \<open>js\<close> embeds an ASCII literal. Numbers that hold sizes, offsets and unsigned
  reads are natural numbers (they stay far below \<open>2^53\<close>, where doubles are exact).
\<close>

type_synonym byte = "8 word"
type_synonym arraybuffer = "byte list"
type_synonym jsstring = "16 word list"

definition js :: "string \<Rightarrow> jsstring" where
  "js s = map of_char s"

text \<open>\<open>String.fromCharCode(n)\<close>: the code unit \<open>n mod 2^16\<close>.\<close>

definition fromCharCode :: "nat \<Rightarrow> 16 word" where
  "fromCharCode n = of_nat n"

text \<open>The scalar of a \<open>Node\<close>: \<open>string | number | null\<close>.\<close>

datatype nvalue = VNull | VString jsstring | VNumber int

text \<open>
  Every exception the modelled code can raise. \<open>RangeError\<close> is what the \<open>DataView\<close>
  constructor and getters throw on an out-of-bounds access; the others are the messages of
  the two \<open>throwParseError\<close> functions.
\<close>

datatype error =
    RangeError
  | NoSectionsFound
  | UnexpectedNodeType jsstring jsstring
  | UnsupportedCrateVersion nvalue
  | NodeTypeNotFound jsstring
  | InvalidMarkersHeader

record dataview =
  buffer :: arraybuffer
  byteOffset :: nat
  byteLength :: nat

text \<open>
  \<open>new DataView(data, offset)\<close> and \<open>new DataView(data, offset, length)\<close>: the view must
  lie inside the buffer, otherwise the constructor throws.
\<close>

definition newDataView :: "arraybuffer \<Rightarrow> nat \<Rightarrow> nat option \<Rightarrow> error + dataview" where
  "newDataView data off len =
     (if length data < off then Inl RangeError
      else case len of
        None \<Rightarrow> Inr \<lparr>buffer = data, byteOffset = off, byteLength = length data - off\<rparr>
      | Some n \<Rightarrow>
          if length data < off + n then Inl RangeError
          else Inr \<lparr>buffer = data, byteOffset = off, byteLength = n\<rparr>)"

text \<open>The getters check the index against the view's length before they read.\<close>

definition viewByte :: "dataview \<Rightarrow> nat \<Rightarrow> nat" where
  "viewByte v i = unat (buffer v ! (byteOffset v + i))"

definition getUint8 :: "dataview \<Rightarrow> nat \<Rightarrow> error + nat" where
  "getUint8 v i = (if byteLength v < i + 1 then Inl RangeError else Inr (viewByte v i))"

definition getUint16 :: "dataview \<Rightarrow> nat \<Rightarrow> error + nat" where
  "getUint16 v i =
     (if byteLength v < i + 2 then Inl RangeError
      else Inr (viewByte v i * 256 + viewByte v (i + 1)))"

definition getUint32 :: "dataview \<Rightarrow> nat \<Rightarrow> error + nat" where
  "getUint32 v i =
     (if byteLength v < i + 4 then Inl RangeError
      else Inr (viewByte v i * 16777216 + viewByte v (i + 1) * 65536
                + viewByte v (i + 2) * 256 + viewByte v (i + 3)))"

text \<open>
  \<open>s.split(sep)\<close> for a non-empty separator: the string is cut at each occurrence of the
  separator found from left to right, occurrences do not overlap, and the result always
  has at least one segment. \<open>cur\<close> is the segment being collected.
\<close>

function split_from :: "'a list \<Rightarrow> 'a list \<Rightarrow> 'a list \<Rightarrow> 'a list list" where
  "split_from sep cur s =
     (if s = [] then [cur]
      else if sep \<noteq> [] \<and> take (length sep) s = sep
           then cur # split_from sep [] (drop (length sep) s)
      else split_from sep (cur @ [hd s]) (tl s))"
  by pat_completeness auto
termination
  by (relation "measure (\<lambda>(sep, cur, s). length s)") auto

definition split :: "'a list \<Rightarrow> 'a list \<Rightarrow> 'a list list" where
  "split s sep = split_from sep [] s"

section \<open>The crate parser: sections and nodes\<close>

record sect =
  section_type :: jsstring
  section_offset :: nat
  dataOffset :: nat
  dataSize :: nat
  section_data :: dataview

datatype node = Node (node_type: jsstring) (node_value: nvalue) (node_children: "node list")

text \<open>
  \<open>parseSection\<close>: four tag bytes, a big-endian 32-bit length, and a view of that many
  bytes after the header. Both views are made on the whole buffer.
\<close>

definition parseSection :: "arraybuffer \<Rightarrow> nat \<Rightarrow> error + sect" where
  "parseSection data offset =
     (case newDataView data offset None of Inl e \<Rightarrow> Inl e | Inr view \<Rightarrow>
     (case getUint8 view 0 of Inl e \<Rightarrow> Inl e | Inr c0 \<Rightarrow>
     (case getUint8 view 1 of Inl e \<Rightarrow> Inl e | Inr c1 \<Rightarrow>
     (case getUint8 view 2 of Inl e \<Rightarrow> Inl e | Inr c2 \<Rightarrow>
     (case getUint8 view 3 of Inl e \<Rightarrow> Inl e | Inr c3 \<Rightarrow>
     (case getUint32 view 4 of Inl e \<Rightarrow> Inl e | Inr sectionSize \<Rightarrow>
     (case newDataView data (offset + 8) (Some sectionSize) of Inl e \<Rightarrow> Inl e
      | Inr sectionContents \<Rightarrow>
          Inr \<lparr>section_type = map fromCharCode [c0, c1, c2, c3],
               section_offset = offset,
               dataOffset = offset + 8,
               dataSize = sectionSize,
               section_data = sectionContents\<rparr>)))))))"

text \<open>
  \<open>parseString16\<close>: big-endian 16-bit code units up to the first zero unit or the end of
  the payload. An odd payload length makes the last read leave the view.
\<close>

function parseString16_loop :: "dataview \<Rightarrow> nat \<Rightarrow> nat \<Rightarrow> jsstring \<Rightarrow> error + jsstring" where
  "parseString16_loop data sz i chars =
     (if i < sz then
        (case getUint16 data i of Inl e \<Rightarrow> Inl e
         | Inr charCode \<Rightarrow>
             if charCode = 0 then Inr chars
             else parseString16_loop data sz (i + 2) (chars @ [fromCharCode charCode]))
      else Inr chars)"
  by pat_completeness auto
termination
  by (relation "measure (\<lambda>(data, sz, i, chars). sz - i)") auto

definition parseString16 :: "dataview \<Rightarrow> nat \<Rightarrow> error + jsstring" where
  "parseString16 data sz = parseString16_loop data sz 0 []"

text \<open>
  \<open>parseInt8\<close>: \<open>value |= data.getUint8(i) << (i * 8)\<close>. The operators \<open><<\<close> and \<open>|\<close> work
  on 32-bit integers, the shift count is taken modulo 32, and the result is read as a signed
  32-bit integer. The accumulator is a 32-bit word; \<open>sint\<close> gives the number returned.
\<close>

function parseInt8_loop :: "dataview \<Rightarrow> nat \<Rightarrow> nat \<Rightarrow> 32 word \<Rightarrow> error + 32 word" where
  "parseInt8_loop data sz i val =
     (if i < sz then
        (case getUint8 data i of Inl e \<Rightarrow> Inl e
         | Inr b \<Rightarrow>
             parseInt8_loop data sz (i + 1) (val OR push_bit ((i * 8) mod 32) (of_nat b)))
      else Inr val)"
  by pat_completeness auto
termination
  by (relation "measure (\<lambda>(data, sz, i, val). sz - i)") auto

definition parseInt8 :: "dataview \<Rightarrow> nat \<Rightarrow> error + int" where
  "parseInt8 data sz =
     (case parseInt8_loop data sz 0 0 of Inl e \<Rightarrow> Inl e | Inr val \<Rightarrow> Inr (sint val))"

text \<open>
  \<open>parseSectionNodes\<close>: the loop over the sibling sections of \<open>section\<close>, from the
  absolute offset \<open>offset\<close> up to the end of the section's payload. A tag outside the two
  scalar sets is a container, decoded by the recursive call.
\<close>

function parseSectionNodes_loop :: "sect \<Rightarrow> nat \<Rightarrow> error + node list" where
  "parseSectionNodes_loop section offset =
     (if offset < dataOffset section + dataSize section then
        (case parseSection (buffer (section_data section)) offset of Inl e \<Rightarrow> Inl e
         | Inr subSection \<Rightarrow>
            (case
               (if section_type subSection \<in> {js ''vrsn'', js ''tvcn'', js ''tvcw'', js ''ptrk''}
                then (case parseString16 (section_data subSection) (dataSize subSection) of
                        Inl e \<Rightarrow> Inl e
                      | Inr s \<Rightarrow> Inr (Node (section_type subSection) (VString s) []))
                else if section_type subSection = js ''brev''
                then (case parseInt8 (section_data subSection) (dataSize subSection) of
                        Inl e \<Rightarrow> Inl e
                      | Inr n \<Rightarrow> Inr (Node (section_type subSection) (VNumber n) []))
                else (case parseSectionNodes_loop subSection (dataOffset subSection) of
                        Inl e \<Rightarrow> Inl e
                      | Inr children \<Rightarrow> Inr (Node (section_type subSection) VNull children)))
             of Inl e \<Rightarrow> Inl e
             | Inr n \<Rightarrow>
                (case parseSectionNodes_loop section (offset + 8 + dataSize subSection) of
                   Inl e \<Rightarrow> Inl e
                 | Inr nodes \<Rightarrow> Inr (n # nodes))))
      else Inr [])"
  by pat_completeness auto
termination
proof (relation "measure (\<lambda>(section, offset). length (buffer (section_data section)) - offset)")
  show "wf (measure (\<lambda>(section, offset). length (buffer (section_data section)) - offset))"
    by simp
next
  fix sec :: sect and offset subSection
  assume "parseSection (buffer (section_data sec)) offset = Inr subSection"
  then have "buffer (section_data subSection) = buffer (section_data sec)
      \<and> dataOffset subSection = offset + 8
      \<and> offset + 8 + dataSize subSection \<le> length (buffer (section_data sec))"
    by (auto simp: parseSection_def newDataView_def split: sum.splits if_splits)
  then show "((subSection, dataOffset subSection), (sec, offset))
      \<in> measure (\<lambda>(section, offset). length (buffer (section_data section)) - offset)"
    by auto
next
  fix sec :: sect and offset subSection
  assume "parseSection (buffer (section_data sec)) offset = Inr subSection"
  then have "offset + 8 + dataSize subSection \<le> length (buffer (section_data sec))"
    by (auto simp: parseSection_def newDataView_def split: sum.splits if_splits)
  then show "((sec, offset + 8 + dataSize subSection), (sec, offset))
      \<in> measure (\<lambda>(section, offset). length (buffer (section_data section)) - offset)"
    by auto
qed

definition parseSectionNodes :: "sect \<Rightarrow> error + node list" where
  "parseSectionNodes section = parseSectionNodes_loop section (dataOffset section)"

section \<open>The crate parser: the crate document\<close>

definition expectNodeType :: "node \<Rightarrow> jsstring \<Rightarrow> error + node" where
  "expectNodeType n t =
     (if node_type n \<noteq> t then Inl (UnexpectedNodeType t (node_type n)) else Inr n)"

definition findNode :: "node list \<Rightarrow> jsstring \<Rightarrow> node option" where
  "findNode nodeList t = find (\<lambda>n. node_type n = t) nodeList"

definition findNodeOrThrow :: "node list \<Rightarrow> jsstring \<Rightarrow> error + node" where
  "findNodeOrThrow nodeList t =
     (case findNode nodeList t of None \<Rightarrow> Inl (NodeTypeNotFound t) | Some n \<Rightarrow> Inr n)"

record crateTrack =
  track_path :: jsstring

record crate =
  crate_name :: "jsstring list"
  crate_version :: jsstring
  crate_tracks :: "crateTrack list"

text \<open>
  \<open>value as string\<close> is a compile-time cast that checks nothing. It is only applied to the
  values of \<open>vrsn\<close> and \<open>ptrk\<close> nodes, which \<open>parseSectionNodes\<close> always builds with
  \<open>parseString16\<close> (lemma \<open>parseSectionNodes_string_nodes\<close> below), so the other cases
  do not arise.
\<close>

fun asString :: "nvalue \<Rightarrow> jsstring" where
  "asString (VString s) = s"

text \<open>The loop over \<open>nodes[1..]\<close> that collects the track entries.\<close>

fun parseCrate_tracks :: "node list \<Rightarrow> error + crateTrack list" where
  "parseCrate_tracks [] = Inr []"
| "parseCrate_tracks (n # ns) =
     (if node_type n = js ''otrk'' then
        (case findNodeOrThrow (node_children n) (js ''ptrk'') of Inl e \<Rightarrow> Inl e
         | Inr p \<Rightarrow>
            (case parseCrate_tracks ns of Inl e \<Rightarrow> Inl e
             | Inr tracks \<Rightarrow> Inr (\<lparr>track_path = asString (node_value p)\<rparr> # tracks)))
      else parseCrate_tracks ns)"

text \<open>\<open>path.split('/').pop()?.split('.').shift()\<close>: \<open>split\<close> never returns an empty array.\<close>

definition filenameWithoutExtension :: "jsstring \<Rightarrow> jsstring" where
  "filenameWithoutExtension path = hd (split (last (split path (js ''/''))) (js ''.''))"

definition rootSection :: "arraybuffer \<Rightarrow> sect" where
  "rootSection data =
     \<lparr>section_type = js ''root'', section_offset = 0, dataOffset = 0, dataSize = length data,
      section_data = \<lparr>buffer = data, byteOffset = 0, byteLength = length data\<rparr>\<rparr>"

text \<open>\<open>parseCrate\<close>, from the path and the bytes that were read from it.\<close>

definition parseCrate :: "jsstring \<Rightarrow> arraybuffer \<Rightarrow> error + crate" where
  "parseCrate path data =
     (case parseSectionNodes (rootSection data) of Inl e \<Rightarrow> Inl e
      | Inr nodes \<Rightarrow>
          if length nodes = 0 then Inl NoSectionsFound
          else (case expectNodeType (nodes ! 0) (js ''vrsn'') of Inl e \<Rightarrow> Inl e
           | Inr version \<Rightarrow>
              if node_value version \<noteq> VString (js ''1.0/Serato ScratchLive Crate'')
              then Inl (UnsupportedCrateVersion (node_value version))
              else (case parseCrate_tracks (drop 1 nodes) of Inl e \<Rightarrow> Inl e
               | Inr tracks \<Rightarrow>
                  Inr \<lparr>crate_name = split (filenameWithoutExtension path) (js ''%%''),
                       crate_version = asString (node_value version),
                       crate_tracks = tracks\<rparr>)))"

section \<open>The track meta-data parser: Markers2 and BeatGrid\<close>

type_synonym colorRGB = "nat \<times> nat \<times> nat"
type_synonym colorARGB = "nat \<times> nat \<times> nat \<times> nat"

record cuePoint =
  cue_index :: nat
  positionMs :: nat
  cue_color :: colorRGB
  cue_name :: jsstring

record loopEntry =
  loop_index :: nat
  startMs :: nat
  endMs :: nat
  loop_color :: colorARGB
  locked :: bool
  loop_name :: jsstring

record seratorMarker2Data =
  m_color :: "colorARGB option"
  m_cuePoints :: "cuePoint list"
  m_loopEntries :: "loopEntry list"
  m_bpmLock :: "bool option"

text \<open>A 32-bit float, kept as its IEEE-754 bit pattern.\<close>

datatype float32 = Float32 "32 word"

definition getFloat32 :: "dataview \<Rightarrow> nat \<Rightarrow> error + float32" where
  "getFloat32 v i =
     (if byteLength v < i + 4 then Inl RangeError
      else Inr (Float32 (of_nat (viewByte v i * 16777216 + viewByte v (i + 1) * 65536
                                 + viewByte v (i + 2) * 256 + viewByte v (i + 3)))))"

record seratoBeatGridMarker =
  marker_position :: float32
  marker_bpm :: "float32 option"
  beatsTillNextMarker :: "nat option"

record seratoBeatGridData =
  grid_markers :: "seratoBeatGridMarker list"

text \<open>\<open>buffer.slice(first, final)\<close>: both ends are clamped to the buffer.\<close>

definition slice :: "arraybuffer \<Rightarrow> nat \<Rightarrow> nat \<Rightarrow> arraybuffer" where
  "slice b first final = take (final - first) (drop first b)"

text \<open>
  \<open>readNullTerminatedString\<close>. The loop reads the byte before it compares the position
  with the view's length, so a string that is not terminated inside the view ends in the
  getter's \<open>RangeError\<close>. \<open>new TextDecoder().decode\<close> belongs to the platform and is the
  parameter \<open>textDecode\<close>.
\<close>

function readNullTerminatedString_length :: "dataview \<Rightarrow> nat \<Rightarrow> nat \<Rightarrow> error + nat" where
  "readNullTerminatedString_length view offset len =
     (case getUint8 view (offset + len) of Inl e \<Rightarrow> Inl e
      | Inr b \<Rightarrow>
          if b \<noteq> 0 \<and> offset + len < byteLength view
          then readNullTerminatedString_length view offset (len + 1)
          else Inr len)"
  by pat_completeness auto
termination
  by (relation "measure (\<lambda>(view, offset, len). byteLength view - (offset + len))") auto

definition readNullTerminatedString ::
  "(arraybuffer \<Rightarrow> jsstring) \<Rightarrow> dataview \<Rightarrow> nat \<Rightarrow> error + jsstring" where
  "readNullTerminatedString textDecode view offset =
     (case readNullTerminatedString_length view offset 0 of Inl e \<Rightarrow> Inl e
      | Inr len \<Rightarrow>
          Inr (textDecode (slice (buffer view) (byteOffset view + offset)
                                 (byteOffset view + offset + len))))"

record element =
  element_name :: jsstring
  element_data :: dataview

text \<open>
  The framing loop of \<open>parseSeratorMarkers2\<close>. \<open>payloadView\<close> is a view of the whole
  payload; \<open>name.length\<close> is the length of the decoded string.
\<close>

function parseElements ::
  "(arraybuffer \<Rightarrow> jsstring) \<Rightarrow> arraybuffer \<Rightarrow> nat \<Rightarrow> error + element list" where
  "parseElements textDecode payload offset =
     (if offset < length payload then
        (case readNullTerminatedString textDecode
                \<lparr>buffer = payload, byteOffset = 0, byteLength = length payload\<rparr> offset of
           Inl e \<Rightarrow> Inl e
         | Inr name \<Rightarrow>
            if name = [] then Inr []
            else
              (case getUint32 \<lparr>buffer = payload, byteOffset = 0, byteLength = length payload\<rparr>
                      (offset + length name + 1) of
                 Inl e \<Rightarrow> Inl e
               | Inr len \<Rightarrow>
                  (case newDataView payload (offset + length name + 5) (Some len) of
                     Inl e \<Rightarrow> Inl e
                   | Inr data \<Rightarrow>
                      (case parseElements textDecode payload (offset + length name + 5 + len) of
                         Inl e \<Rightarrow> Inl e
                       | Inr elements \<Rightarrow>
                          Inr (\<lparr>element_name = name, element_data = data\<rparr> # elements)))))
      else Inr [])"
  by pat_completeness auto
termination
  by (relation "measure (\<lambda>(textDecode, payload, offset). length payload - offset)") auto

text \<open>The body of \<open>elements.forEach\<close>: one element applied to the result so far.\<close>

definition applyElement ::
  "(arraybuffer \<Rightarrow> jsstring) \<Rightarrow> seratorMarker2Data \<Rightarrow> element \<Rightarrow> error + seratorMarker2Data" where
  "applyElement textDecode result el =
     (let d = element_data el in
      if element_name el = js ''COLOR'' then
        (case getUint8 d 0 of Inl e \<Rightarrow> Inl e | Inr c0 \<Rightarrow>
        (case getUint8 d 1 of Inl e \<Rightarrow> Inl e | Inr c1 \<Rightarrow>
        (case getUint8 d 2 of Inl e \<Rightarrow> Inl e | Inr c2 \<Rightarrow>
        (case getUint8 d 3 of Inl e \<Rightarrow> Inl e | Inr c3 \<Rightarrow>
         Inr (result\<lparr>m_color := Some (c0, c1, c2, c3)\<rparr>)))))
      else if element_name el = js ''CUE'' then
        (case getUint8 d 1 of Inl e \<Rightarrow> Inl e | Inr index \<Rightarrow>
        (case getUint32 d 2 of Inl e \<Rightarrow> Inl e | Inr pos \<Rightarrow>
        (case getUint8 d 7 of Inl e \<Rightarrow> Inl e | Inr c0 \<Rightarrow>
        (case getUint8 d 8 of Inl e \<Rightarrow> Inl e | Inr c1 \<Rightarrow>
        (case getUint8 d 9 of Inl e \<Rightarrow> Inl e | Inr c2 \<Rightarrow>
        (case readNullTerminatedString textDecode d 12 of Inl e \<Rightarrow> Inl e | Inr name \<Rightarrow>
         Inr (result\<lparr>m_cuePoints := m_cuePoints result @
                [\<lparr>cue_index = index, positionMs = pos, cue_color = (c0, c1, c2),
                  cue_name = name\<rparr>]\<rparr>)))))))
      else if element_name el = js ''LOOP'' then
        (case getUint8 d 1 of Inl e \<Rightarrow> Inl e | Inr index \<Rightarrow>
        (case getUint32 d 2 of Inl e \<Rightarrow> Inl e | Inr start \<Rightarrow>
        (case getUint32 d 6 of Inl e \<Rightarrow> Inl e | Inr stop \<Rightarrow>
        (case getUint8 d 14 of Inl e \<Rightarrow> Inl e | Inr c0 \<Rightarrow>
        (case getUint8 d 15 of Inl e \<Rightarrow> Inl e | Inr c1 \<Rightarrow>
        (case getUint8 d 16 of Inl e \<Rightarrow> Inl e | Inr c2 \<Rightarrow>
        (case getUint8 d 17 of Inl e \<Rightarrow> Inl e | Inr c3 \<Rightarrow>
        (case getUint8 d 19 of Inl e \<Rightarrow> Inl e | Inr l \<Rightarrow>
        (case readNullTerminatedString textDecode d 20 of Inl e \<Rightarrow> Inl e | Inr name \<Rightarrow>
         Inr (result\<lparr>m_loopEntries := m_loopEntries result @
                [\<lparr>loop_index = index, startMs = start, endMs = stop,
                  loop_color = (c0, c1, c2, c3), locked = (l = 1), loop_name = name\<rparr>]\<rparr>))))))))))
      else if element_name el = js ''BPMLOCK'' then
        (case getUint8 d 0 of Inl e \<Rightarrow> Inl e | Inr b \<Rightarrow>
         Inr (result\<lparr>m_bpmLock := Some (b = 1)\<rparr>))
      else Inr result)"

fun applyElements ::
  "(arraybuffer \<Rightarrow> jsstring) \<Rightarrow> seratorMarker2Data \<Rightarrow> element list \<Rightarrow> error + seratorMarker2Data" where
  "applyElements textDecode result [] = Inr result"
| "applyElements textDecode result (el # els) =
     (case applyElement textDecode result el of Inl e \<Rightarrow> Inl e
      | Inr result' \<Rightarrow> applyElements textDecode result' els)"

text \<open>\<open>payload[i]\<close> on a \<open>Uint8Array\<close>: \<open>undefined\<close> outside the array.\<close>

definition payloadAt :: "arraybuffer \<Rightarrow> nat \<Rightarrow> nat option" where
  "payloadAt payload i = (if i < length payload then Some (unat (payload ! i)) else None)"

definition emptyMarkers :: seratorMarker2Data where
  "emptyMarkers = \<lparr>m_color = None, m_cuePoints = [], m_loopEntries = [], m_bpmLock = Some False\<rparr>"

text \<open>
  The part of \<open>parseSeratorMarkers2\<close> that works on the decoded payload: the header check,
  the framing loop and the dispatch.
\<close>

definition parseMarkers2Payload ::
  "(arraybuffer \<Rightarrow> jsstring) \<Rightarrow> arraybuffer \<Rightarrow> error + seratorMarker2Data" where
  "parseMarkers2Payload textDecode payload =
     (if payloadAt payload 0 \<noteq> Some 1 \<or> payloadAt payload 1 \<noteq> Some 1
      then Inl InvalidMarkersHeader
      else (case parseElements textDecode payload 2 of Inl e \<Rightarrow> Inl e
            | Inr elements \<Rightarrow> applyElements textDecode emptyMarkers elements))"

text \<open>
  \<open>parseSeratorMarkers2\<close>. \<open>Buffer.from(s, 'base64')\<close> belongs to the platform and is the
  parameter \<open>base64\<close>; it does not throw.
\<close>

definition parseSeratorMarkers2 ::
  "(jsstring \<Rightarrow> arraybuffer) \<Rightarrow> (arraybuffer \<Rightarrow> jsstring) \<Rightarrow> dataview
     \<Rightarrow> error + seratorMarker2Data" where
  "parseSeratorMarkers2 base64 textDecode view =
     (case readNullTerminatedString textDecode view 0 of Inl e \<Rightarrow> Inl e
      | Inr base64String \<Rightarrow> parseMarkers2Payload textDecode (base64 base64String))"

text \<open>
  The loop of \<open>parseSeratoBeatGrid\<close>. Inside the loop \<open>numMarkers\<close> is at least 1, so the
  subtraction in \<open>i < numMarkers - 1\<close> is the one of the source.
\<close>

function parseSeratoBeatGrid_loop ::
  "dataview \<Rightarrow> nat \<Rightarrow> nat \<Rightarrow> error + seratoBeatGridMarker list" where
  "parseSeratoBeatGrid_loop view numMarkers i =
     (if i < numMarkers then
        (case getFloat32 view (6 + i * 8) of Inl e \<Rightarrow> Inl e
         | Inr pos \<Rightarrow>
            (case
               (if i < numMarkers - 1
                then (case getUint32 view (6 + i * 8 + 4) of Inl e \<Rightarrow> Inl e
                      | Inr beats \<Rightarrow>
                          Inr \<lparr>marker_position = pos, marker_bpm = None,
                               beatsTillNextMarker = Some beats\<rparr>)
                else (case getFloat32 view (6 + i * 8 + 4) of Inl e \<Rightarrow> Inl e
                      | Inr bpm \<Rightarrow>
                          Inr \<lparr>marker_position = pos, marker_bpm = Some bpm,
                               beatsTillNextMarker = None\<rparr>))
             of Inl e \<Rightarrow> Inl e
             | Inr m \<Rightarrow>
                (case parseSeratoBeatGrid_loop view numMarkers (i + 1) of Inl e \<Rightarrow> Inl e
                 | Inr ms \<Rightarrow> Inr (m # ms))))
      else Inr [])"
  by pat_completeness auto
termination
  by (relation "measure (\<lambda>(view, numMarkers, i). numMarkers - i)") auto

definition parseSeratoBeatGrid :: "dataview \<Rightarrow> error + seratoBeatGridData" where
  "parseSeratoBeatGrid view =
     (case getUint32 view 2 of Inl e \<Rightarrow> Inl e
      | Inr numMarkers \<Rightarrow>
          (case parseSeratoBeatGrid_loop view numMarkers 0 of Inl e \<Rightarrow> Inl e
           | Inr ms \<Rightarrow> Inr \<lparr>grid_markers = ms\<rparr>))"

section \<open>The track meta-data record and its GEOB frames\<close>

text \<open>
  \<open>TrackMetaData\<close>. The fields up to \<open>sampleRate\<close> are filled from the tag reader's
  output, which is not part of this repository; \<open>'num\<close> is the type of its numbers.
\<close>

record 'num trackMetaData =
  tm_path :: jsstring
  trackId :: nat
  tm_size :: 'num
  tm_name :: jsstring
  artist :: jsstring
  composer :: jsstring
  album :: jsstring
  grouping :: jsstring
  genre :: jsstring
  kind :: jsstring
  discNumber :: 'num
  trackNumber :: 'num
  year :: 'num
  averageBpm :: 'num
  comments :: jsstring
  playCount :: 'num
  remixer :: jsstring
  tonalKey :: jsstring
  label :: jsstring
  mixName :: jsstring
  totalTime :: 'num
  bitRate :: 'num
  sampleRate :: 'num
  color :: "colorARGB option"
  cuePoints :: "cuePoint list"
  loopEntries :: "loopEntry list"
  beatGridMarkers :: "seratoBeatGridMarker list option"
  bpmLock :: bool
  hasWarnings :: bool

text \<open>
  \<open>GEOBDir\<close>. \<open>geob_data\<close> is the array buffer \<open>value.data.buffer\<close>, on which the frame's
  \<open>DataView\<close> is made.
\<close>

record gEOBDir =
  geob_type :: jsstring
  geob_filename :: jsstring
  geob_description :: jsstring
  geob_data :: arraybuffer

text \<open>
  The body of \<open>geobObjects.forEach\<close>: the \<open>switch\<close> inside \<open>try\<close>, and the \<open>catch\<close> that
  sets \<open>hasWarnings\<close>. Both decoders run to their end before any field is assigned.
\<close>

definition processGeob ::
  "(jsstring \<Rightarrow> arraybuffer) \<Rightarrow> (arraybuffer \<Rightarrow> jsstring) \<Rightarrow> 'num trackMetaData \<Rightarrow> gEOBDir
     \<Rightarrow> 'num trackMetaData" where
  "processGeob base64 textDecode result v =
     (if geob_type v \<noteq> js ''application/octet-stream'' then result
      else
        (let data = \<lparr>buffer = geob_data v, byteOffset = 0, byteLength = length (geob_data v)\<rparr>
         in if geob_description v = js ''Serato Markers2'' then
              (case parseSeratorMarkers2 base64 textDecode data of
                 Inl err \<Rightarrow> result\<lparr>hasWarnings := True\<rparr>
               | Inr markers \<Rightarrow>
                   result\<lparr>color := (case m_color markers of Some c \<Rightarrow> Some c | None \<Rightarrow> color result),
                          cuePoints := m_cuePoints markers,
                          loopEntries := m_loopEntries markers,
                          bpmLock := (case m_bpmLock markers of Some b \<Rightarrow> b
                                      | None \<Rightarrow> bpmLock result)\<rparr>)
            else if geob_description v = js ''Serato BeatGrid'' then
              (case parseSeratoBeatGrid data of
                 Inl err \<Rightarrow> result\<lparr>hasWarnings := True\<rparr>
               | Inr beatgrid \<Rightarrow> result\<lparr>beatGridMarkers := Some (grid_markers beatgrid)\<rparr>)
            else result))"

text \<open>
  The end of \<open>parseTrackMetaData\<close>: \<open>result\<close> is the record built from the tag reader's
  output, \<open>geobObjects\<close> the values of the GEOB frames, or \<open>None\<close> when the file has no
  ID3v2 tags.
\<close>

definition parseTrackMetaData ::
  "(jsstring \<Rightarrow> arraybuffer) \<Rightarrow> (arraybuffer \<Rightarrow> jsstring) \<Rightarrow> 'num trackMetaData
     \<Rightarrow> gEOBDir list option \<Rightarrow> 'num trackMetaData" where
  "parseTrackMetaData base64 textDecode result geobObjects =
     (case geobObjects of None \<Rightarrow> result
      | Some vs \<Rightarrow> foldl (processGeob base64 textDecode) result vs)"

section \<open>The command line: crate scan and playlist tree\<close>

text \<open>\<open>s.includes(f)\<close>: \<open>f\<close> occurs in \<open>s\<close>.\<close>

fun js_includes :: "'a list \<Rightarrow> 'a list \<Rightarrow> bool" where
  "js_includes [] f = (f = [])"
| "js_includes (c # cs) f = (take (length f) (c # cs) = f \<or> js_includes cs f)"

record scan =
  crateList :: "crate list"
  trackList :: "crateTrack list"
  trackPathIndex :: "jsstring \<rightharpoonup> nat"
  scan_errors :: "error list"

text \<open>
  The loop over \<open>crate.tracks\<close>. A track that the filter rejects is skipped; a path that
  has no index yet is pushed and indexed by its position in \<open>trackList\<close>.
\<close>

fun scanTracks :: "jsstring option \<Rightarrow> crateTrack list \<Rightarrow> scan \<Rightarrow> scan" where
  "scanTracks trackFilter [] st = st"
| "scanTracks trackFilter (track # rest) st =
     (if (case trackFilter of None \<Rightarrow> False
          | Some f \<Rightarrow> f \<noteq> [] \<and> \<not> js_includes (track_path track) f)
      then scanTracks trackFilter rest st
      else if trackPathIndex st (track_path track) = None
      then scanTracks trackFilter rest
             (st\<lparr>trackList := trackList st @ [track],
                 trackPathIndex := (trackPathIndex st)
                   (track_path track \<mapsto> length (trackList st @ [track]) - 1)\<rparr>)
      else scanTracks trackFilter rest st)"

text \<open>
  The loop over the crate files, on the results of \<open>parseCrate\<close>: a crate that fails to
  parse leaves an error message and nothing else.
\<close>

fun scanCrates :: "jsstring option \<Rightarrow> (error + crate) list \<Rightarrow> scan \<Rightarrow> scan" where
  "scanCrates trackFilter [] st = st"
| "scanCrates trackFilter (r # rs) st =
     (case r of
        Inl err \<Rightarrow> scanCrates trackFilter rs (st\<lparr>scan_errors := scan_errors st @ [err]\<rparr>)
      | Inr c \<Rightarrow>
          scanCrates trackFilter rs
            (scanTracks trackFilter (crate_tracks c) (st\<lparr>crateList := crateList st @ [c]\<rparr>)))"

definition emptyScan :: scan where
  "emptyScan = \<lparr>crateList = [], trackList = [], trackPathIndex = Map.empty, scan_errors = []\<rparr>"

text \<open>
  The playlist tree. Folder objects are shared by reference between the registry
  \<open>folders\<close> and the \<open>children\<close> arrays, so they live in a store: \<open>heap ! a\<close> is the
  folder at address \<open>a\<close>, and a child that is a folder is the address of that folder.
\<close>

datatype recordboxPlaylistNode =
    FolderRef nat
  | Playlist (playlist_name: jsstring) (playlist_tracks: "nat list")

record recordboxFolder =
  folder_name :: jsstring
  folder_children :: "recordboxPlaylistNode list"

record tree =
  heap :: "recordboxFolder list"
  folders :: "jsstring \<rightharpoonup> nat"

text \<open>\<open>parts.join(sep)\<close>.\<close>

fun join :: "'a list list \<Rightarrow> 'a list \<Rightarrow> 'a list" where
  "join [] sep = []"
| "join [x] sep = x"
| "join (x # y # ys) sep = x @ sep @ join (y # ys) sep"

definition push_child :: "nat \<Rightarrow> recordboxPlaylistNode \<Rightarrow> tree \<Rightarrow> tree" where
  "push_child a child t =
     t\<lparr>heap := (heap t)[a := (heap t ! a)\<lparr>folder_children := folder_children (heap t ! a) @ [child]\<rparr>]\<rparr>"

definition initialTree :: tree where
  "initialTree =
     \<lparr>heap = [\<lparr>folder_name = js ''ROOT'', folder_children = []\<rparr>], folders = [js ''ROOT'' \<mapsto> 0]\<rparr>"

text \<open>
  \<open>getParentFolder\<close> returns the address of the folder for \<open>path\<close> and the store after
  the folders it had to create. The registry entry \<open>ROOT\<close> is set before the first call
  and never removed, so \<open>folders.get('ROOT')\<close> is always a folder.
\<close>

function getParentFolder :: "jsstring list \<Rightarrow> tree \<Rightarrow> nat \<times> tree" where
  "getParentFolder path t =
     (if length path = 0 then (the (folders t (js ''ROOT'')), t)
      else
        (case folders t (join path (js ''/'')) of
           Some folder \<Rightarrow> (folder, t)
         | None \<Rightarrow>
            (let localPath = butlast path;
                 name = last path;
                 newFolder = length (heap t);
                 t1 = t\<lparr>heap := heap t @ [\<lparr>folder_name = name, folder_children = []\<rparr>],
                        folders := (folders t)(join path (js ''/'') \<mapsto> newFolder)\<rparr>;
                 (parent, t2) = getParentFolder localPath t1
             in (newFolder, push_child parent (FolderRef newFolder) t2))))"
  by pat_completeness auto
termination
  by (relation "measure (\<lambda>(path, t). length path)") auto

text \<open>
  The body of \<open>crateList.forEach\<close>: the playlist of one crate, with the indices of its
  tracks that have one, pushed to the folder of the crate's prefix.
\<close>

definition playlistTracks :: "(jsstring \<rightharpoonup> nat) \<Rightarrow> crate \<Rightarrow> nat list" where
  "playlistTracks index c =
     map the (filter (\<lambda>i. i \<noteq> None) (map (\<lambda>track. index (track_path track)) (crate_tracks c)))"

definition placeCrate :: "(jsstring \<rightharpoonup> nat) \<Rightarrow> tree \<Rightarrow> crate \<Rightarrow> tree" where
  "placeCrate index t c =
     (let parts = butlast (crate_name c);
          name = last (crate_name c);
          (parent, t1) = getParentFolder parts t
      in push_child parent (Playlist name (playlistTracks index c)) t1)"

definition buildTree :: "(jsstring \<rightharpoonup> nat) \<Rightarrow> crate list \<Rightarrow> tree" where
  "buildTree index crates = foldl (placeCrate index) initialTree crates"

section \<open>Predicates and example inputs\<close>

text \<open>
  A node whose tag is one of the four string tags carries a string, and so do all the
  nodes below it.
\<close>

fun stringNode :: "node \<Rightarrow> bool" where
  "stringNode (Node t v cs) =
     ((t \<in> {js ''vrsn'', js ''tvcn'', js ''tvcw'', js ''ptrk''} \<longrightarrow> (\<exists>s. v = VString s))
      \<and> (\<forall>c\<in>set cs. stringNode c))"

text \<open>
  The value of a byte sequence as the claim about integer leaves words it, with the first
  byte the most significant (\<open>b0 * 256^(k-1) + ... + b(k-1)\<close>), and with the first byte
  the least significant (\<open>b0 + b1 * 256 + ...\<close>).
\<close>

fun bigEndian :: "byte list \<Rightarrow> nat" where
  "bigEndian [] = 0"
| "bigEndian (b # bs) = unat b * 256 ^ length bs + bigEndian bs"

fun littleEndian :: "byte list \<Rightarrow> nat" where
  "littleEndian [] = 0"
| "littleEndian (b # bs) = unat b + 256 * littleEndian bs"

text \<open>Bytes of example files: ASCII tags and UTF-16 big-endian strings.\<close>

definition ascii :: "string \<Rightarrow> arraybuffer" where
  "ascii s = map of_char s"

definition utf16be :: "string \<Rightarrow> arraybuffer" where
  "utf16be s = concat (map (\<lambda>c. [0, of_char c]) s)"

text \<open>
  A crate with the version node, a track entry with the children \<open>tvcn\<close> and \<open>ptrk\<close>
  (path \<open>a\<close>), a node with another tag and a track entry for \<open>b\<close>.
\<close>

definition exampleCrate :: arraybuffer where
  "exampleCrate =
     ascii ''vrsn'' @ [0, 0, 0, 56] @ utf16be ''1.0/Serato ScratchLive Crate''
     @ ascii ''otrk'' @ [0, 0, 0, 20]
         @ ascii ''tvcn'' @ [0, 0, 0, 2] @ utf16be ''x''
         @ ascii ''ptrk'' @ [0, 0, 0, 2] @ utf16be ''a''
     @ ascii ''osrt'' @ [0, 0, 0, 0]
     @ ascii ''otrk'' @ [0, 0, 0, 10] @ ascii ''ptrk'' @ [0, 0, 0, 2] @ utf16be ''b''"

definition wrongVersionCrate :: arraybuffer where
  "wrongVersionCrate = ascii ''vrsn'' @ [0, 0, 0, 2] @ utf16be ''2''"

definition versionOnlyCrate :: arraybuffer where
  "versionOnlyCrate = ascii ''vrsn'' @ [0, 0, 0, 56] @ utf16be ''1.0/Serato ScratchLive Crate''"

text \<open>
  A beat grid of three markers: positions 0.1, 30.0 and 60.0, with 64 and 32 beats to the
  next marker, and 124 BPM at the last one.
\<close>

definition exampleBeatGrid :: arraybuffer where
  "exampleBeatGrid =
     [1, 0, 0, 0, 0, 3,
      0x3D, 0xCC, 0xCC, 0xCD, 0, 0, 0, 64,
      0x41, 0xF0, 0, 0, 0, 0, 0, 32,
      0x42, 0x70, 0, 0, 0x42, 0xF8, 0, 0]"

text \<open>
  The bytes that a view covers, the bytes of a string up to its first zero byte, and the
  views that lie inside their buffer (all views that \<open>newDataView\<close> returns do).
\<close>

definition viewBytes :: "dataview \<Rightarrow> arraybuffer" where
  "viewBytes v = take (byteLength v) (drop (byteOffset v) (buffer v))"

definition cString :: "arraybuffer \<Rightarrow> arraybuffer" where
  "cString bs = takeWhile (\<lambda>b. b \<noteq> 0) bs"

definition insideBuffer :: "dataview \<Rightarrow> bool" where
  "insideBuffer v = (byteOffset v + byteLength v \<le> length (buffer v))"

text \<open>
  The Markers2 elements as the claim about them words them: the four names that the
  decoder knows; a colour from the first four bytes; a cue point with its index at byte 1,
  its position in milliseconds big-endian at bytes 2 to 5, its colour at bytes 7 to 9 and
  its name from byte 12 up to the first zero byte.
\<close>

definition knownElement :: "element \<Rightarrow> bool" where
  "knownElement el =
     (element_name el \<in> {js ''COLOR'', js ''CUE'', js ''LOOP'', js ''BPMLOCK''})"

definition colorOf :: "arraybuffer \<Rightarrow> colorARGB" where
  "colorOf bs = (unat (bs ! 0), unat (bs ! 1), unat (bs ! 2), unat (bs ! 3))"

definition cueOf :: "(arraybuffer \<Rightarrow> jsstring) \<Rightarrow> arraybuffer \<Rightarrow> cuePoint" where
  "cueOf textDecode bs =
     \<lparr>cue_index = unat (bs ! 1),
      positionMs = bigEndian (take 4 (drop 2 bs)),
      cue_color = (unat (bs ! 7), unat (bs ! 8), unat (bs ! 9)),
      cue_name = textDecode (cString (drop 12 bs))\<rparr>"

text \<open>
  A text decoder for ASCII bytes, and a Markers2 payload: the header, a \<open>COLOR\<close> element,
  an element with the unknown name \<open>XYZZY\<close>, a \<open>CUE\<close> element with index 2 at 1500 ms,
  colour 10, 20, 30 and name \<open>Intro\<close>, and the empty name that ends the list.
\<close>

definition asciiDecode :: "arraybuffer \<Rightarrow> jsstring" where
  "asciiDecode bs = map ucast bs"

definition exampleMarkers2 :: arraybuffer where
  "exampleMarkers2 =
     [1, 1]
     @ ascii ''COLOR'' @ [0] @ [0, 0, 0, 4] @ [0xFF, 0x00, 0xFF, 0x80]
     @ ascii ''XYZZY'' @ [0] @ [0, 0, 0, 2] @ [0xAA, 0xBB]
     @ ascii ''CUE'' @ [0] @ [0, 0, 0, 18]
         @ [0, 2, 0, 0, 0x05, 0xDC, 0, 10, 20, 30, 0, 0] @ ascii ''Intro'' @ [0]
     @ [0]"

text \<open>The view that \<open>parseTrackMetaData\<close> makes on the data of a GEOB frame.\<close>

definition geobView :: "gEOBDir \<Rightarrow> dataview" where
  "geobView v = \<lparr>buffer = geob_data v, byteOffset = 0, byteLength = length (geob_data v)\<rparr>"

text \<open>
  A track record as the tag reader leaves it, a BeatGrid frame that announces one marker
  and holds none, and a frame with the example grid.
\<close>

definition exampleTrack :: "nat trackMetaData" where
  "exampleTrack =
     \<lparr>tm_path = js ''/Music/Song.mp3'', trackId = 0, tm_size = 1000,
      tm_name = js ''Song'', artist = js ''Artist'', composer = [], album = [], grouping = [],
      genre = [], kind = [], discNumber = 0, trackNumber = 1, year = 2024, averageBpm = 124,
      comments = [], playCount = 0, remixer = [], tonalKey = [], label = [], mixName = [],
      totalTime = 180, bitRate = 320000, sampleRate = 44100,
      color = None, cuePoints = [], loopEntries = [], beatGridMarkers = None,
      bpmLock = False, hasWarnings = False\<rparr>"

definition truncatedBeatGridFrame :: gEOBDir where
  "truncatedBeatGridFrame =
     \<lparr>geob_type = js ''application/octet-stream'', geob_filename = [],
      geob_description = js ''Serato BeatGrid'', geob_data = [1, 0, 0, 0, 0, 1]\<rparr>"

definition exampleBeatGridFrame :: gEOBDir where
  "exampleBeatGridFrame =
     \<lparr>geob_type = js ''application/octet-stream'', geob_filename = [],
      geob_description = js ''Serato BeatGrid'', geob_data = exampleBeatGrid\<rparr>"

text \<open>
  The crate scan, in the words of the claim about the index: the paths that pass the track
  filter, in the order in which the scan meets them in the crates that parsed; a list cut
  down to the first occurrence of each of its elements; and the scan that starts with
  empty lists, as the command line does.
\<close>

definition trackIncluded :: "jsstring option \<Rightarrow> jsstring \<Rightarrow> bool" where
  "trackIncluded trackFilter p =
     (\<not> (case trackFilter of None \<Rightarrow> False | Some f \<Rightarrow> f \<noteq> [] \<and> \<not> js_includes p f))"

fun parsedCrates :: "(error + crate) list \<Rightarrow> crate list" where
  "parsedCrates [] = []"
| "parsedCrates (Inl e # rs) = parsedCrates rs"
| "parsedCrates (Inr c # rs) = c # parsedCrates rs"

definition cratePaths :: "crate \<Rightarrow> jsstring list" where
  "cratePaths c = map track_path (crate_tracks c)"

definition seenPaths :: "jsstring option \<Rightarrow> (error + crate) list \<Rightarrow> jsstring list" where
  "seenPaths trackFilter rs =
     filter (trackIncluded trackFilter) (concat (map cratePaths (parsedCrates rs)))"

definition firstSeen :: "'a list \<Rightarrow> 'a list" where
  "firstSeen xs = rev (remdups (rev xs))"

definition addSeen :: "'a list \<Rightarrow> 'a list \<Rightarrow> 'a list" where
  "addSeen known xs = known @ firstSeen (filter (\<lambda>p. p \<notin> set known) xs)"

definition scanAll :: "jsstring option \<Rightarrow> (error + crate) list \<Rightarrow> scan" where
  "scanAll trackFilter rs = scanCrates trackFilter rs emptyScan"

text \<open>
  The invariant of the scan: the paths of \<open>trackList\<close> are distinct, and the index maps
  a path to a number exactly when the number is the position of the path in \<open>trackList\<close>.
\<close>

definition scanPaths :: "scan \<Rightarrow> jsstring list" where
  "scanPaths st = map track_path (trackList st)"

definition indexed :: "scan \<Rightarrow> bool" where
  "indexed st =
     (distinct (scanPaths st)
      \<and> (\<forall>p i. trackPathIndex st p = Some i \<longleftrightarrow> i < length (scanPaths st) \<and> scanPaths st ! i = p))"

text \<open>A crate that holds the one track \<open>Music/Song.mp3\<close>.\<close>

definition songCrate :: "jsstring list \<Rightarrow> crate" where
  "songCrate name =
     \<lparr>crate_name = name, crate_version = js ''1.0/Serato ScratchLive Crate'',
      crate_tracks = [\<lparr>track_path = js ''Music/Song.mp3''\<rparr>]\<rparr>"

text \<open>A crate without tracks, for the examples of the playlist tree.\<close>

definition emptyCrate :: "jsstring list \<Rightarrow> crate" where
  "emptyCrate name =
     \<lparr>crate_name = name, crate_version = js ''1.0/Serato ScratchLive Crate'', crate_tracks = []\<rparr>"

text \<open>
  The playlist tree in the words of the claim about it. The registry key of a prefix; the
  prefixes whose segments hold no slash (file names never do); the registry lookup of
  \<open>getParentFolder\<close>; a store whose registry maps \<open>ROOT\<close> to address 0 and distinct keys
  to distinct folders of the heap; a store that keeps the registry, the names and the
  children of another and may add to them; and a prefix whose folder carries its last
  segment as name and is a child of the folder of the prefix one segment shorter.
\<close>

definition key :: "jsstring list \<Rightarrow> jsstring" where
  "key q = join q (js ''/'')"

definition slashFree :: "jsstring list \<Rightarrow> bool" where
  "slashFree q = (\<forall>s\<in>set q. of_char CHR ''/'' \<notin> set s)"

definition folderOf :: "tree \<Rightarrow> jsstring list \<Rightarrow> nat option" where
  "folderOf t q = (if q = [] then folders t (js ''ROOT'') else folders t (key q))"

definition wellFormed :: "tree \<Rightarrow> bool" where
  "wellFormed t =
     (folders t (js ''ROOT'') = Some 0 \<and> 0 < length (heap t)
      \<and> (\<forall>k a. folders t k = Some a \<longrightarrow> a < length (heap t))
      \<and> (\<forall>k k' a. folders t k = Some a \<and> folders t k' = Some a \<longrightarrow> k = k'))"

definition extends :: "tree \<Rightarrow> tree \<Rightarrow> bool" where
  "extends t t' =
     ((\<forall>k a. folders t k = Some a \<longrightarrow> folders t' k = Some a)
      \<and> length (heap t) \<le> length (heap t')
      \<and> (\<forall>b<length (heap t).
            folder_name (heap t' ! b) = folder_name (heap t ! b)
            \<and> set (folder_children (heap t ! b)) \<subseteq> set (folder_children (heap t' ! b))))"

definition linkedAt :: "tree \<Rightarrow> jsstring list \<Rightarrow> bool" where
  "linkedAt t q =
     (\<exists>a pa. folders t (key q) = Some a \<and> folderOf t (butlast q) = Some pa
        \<and> folder_name (heap t ! a) = last q
        \<and> FolderRef a \<in> set (folder_children (heap t ! pa)))"

text \<open>
  The result of \<open>getParentFolder\<close>, the invariant of the tree between two crates, and a
  crate whose playlist is a child of the folder of its prefix.
\<close>

definition resolved :: "jsstring list \<Rightarrow> tree \<Rightarrow> nat \<Rightarrow> tree \<Rightarrow> bool" where
  "resolved p t a t' =
     (wellFormed t' \<and> folderOf t' p = Some a \<and> extends t t'
      \<and> (\<forall>k. folders t' k \<noteq> None \<and> folders t k = None \<longrightarrow>
             (\<exists>q r. q \<noteq> [] \<and> p = q @ r \<and> k = key q \<and> linkedAt t' q)))"

definition registryLinked :: "tree \<Rightarrow> bool" where
  "registryLinked t =
     (wellFormed t
      \<and> (\<forall>k. folders t k \<noteq> None \<and> k \<noteq> js ''ROOT'' \<longrightarrow>
             (\<exists>q. q \<noteq> [] \<and> slashFree q \<and> k = key q \<and> linkedAt t q)))"

definition placed :: "(jsstring \<rightharpoonup> nat) \<Rightarrow> tree \<Rightarrow> crate \<Rightarrow> bool" where
  "placed index t c =
     (\<exists>a. folderOf t (butlast (crate_name c)) = Some a
        \<and> Playlist (last (crate_name c)) (playlistTracks index c)
             \<in> set (folder_children (heap t ! a)))"

text \<open>
  What the loop of \<open>parseInt8\<close> computes on the payload bytes \<open>b(i), b(i+1), ...\<close>: the
  bitwise OR of the bytes, byte \<open>j\<close> shifted left by \<open>(8 * j) mod 32\<close> bits in a 32-bit
  integer (JavaScript's \<open><<\<close> takes the shift count modulo 32).
\<close>

fun orShifted :: "nat \<Rightarrow> byte list \<Rightarrow> 32 word" where
  "orShifted i [] = 0"
| "orShifted i (b # bs) = push_bit ((i * 8) mod 32) (ucast b) OR orShifted (i + 1) bs"

text \<open>
  The bytes of a \<open>brev\<close> section with the given payload of fewer than 256 bytes.
\<close>

definition brevSection :: "byte list \<Rightarrow> arraybuffer" where
  "brevSection payload = ascii ''brev'' @ [0, 0, 0, of_nat (length payload)] @ payload"

text \<open>
  A position of the section decoder: a section and an offset at which its loop stands.
  \<open>follow\<close> takes the loop of \<open>parseSectionNodes\<close> from one position to another along a
  list of moves: \<open>Over\<close> passes the section found at the offset and goes to its next
  sibling, as the loop does with \<open>offset += 8 + subSection.dataSize\<close>; \<open>Into\<close> enters the
  section found at the offset, as the recursive call does for a tag that is not a scalar.
  Both need the offset to be before the end of the payload and the section there to have
  been framed by \<open>parseSection\<close>.
\<close>

datatype move = Over | Into

fun follow :: "move list \<Rightarrow> sect \<Rightarrow> nat \<Rightarrow> (sect \<times> nat) option" where
  "follow [] sec offset = Some (sec, offset)"
| "follow (m # ms) sec offset =
     (if offset < dataOffset sec + dataSize sec then
        (case parseSection (buffer (section_data sec)) offset of
           Inl e \<Rightarrow> None
         | Inr subSection \<Rightarrow>
            (case m of
               Over \<Rightarrow> follow ms sec (offset + 8 + dataSize subSection)
             | Into \<Rightarrow>
                 if section_type subSection \<in> {js ''vrsn'', js ''tvcn'', js ''tvcw'', js ''ptrk''}
                    \<or> section_type subSection = js ''brev''
                 then None
                 else follow ms subSection (dataOffset subSection)))
      else None)"

text \<open>
  A crate with a truncated section: an empty container \<open>osrt\<close>, then a track entry of 12
  bytes whose \<open>ptrk\<close> child declares 100 bytes where 4 are left in the buffer.
\<close>

definition truncatedCrate :: arraybuffer where
  "truncatedCrate = ascii ''osrt'' @ [0, 0, 0, 0]
                  @ ascii ''otrk'' @ [0, 0, 0, 12]
                  @ ascii ''ptrk'' @ [0, 0, 0, 100] @ [0, 0x61, 0, 0x62]"

text \<open>
  What a list of elements, given by their decoded names and their data, amounts to when
  none of them is a \<open>LOOP\<close> or a \<open>BPMLOCK\<close> element, every \<open>COLOR\<close> element has its four
  bytes and the name of every \<open>CUE\<close> element is terminated: the colour of the last \<open>COLOR\<close>
  element, if there is one, and the cue points of the \<open>CUE\<close> elements in their order.
\<close>

definition simpleEntry :: "jsstring \<times> arraybuffer \<Rightarrow> bool" where
  "simpleEntry en =
     ((fst en = js ''COLOR'' \<longrightarrow> 4 \<le> length (snd en))
      \<and> (fst en = js ''CUE'' \<longrightarrow> 0 \<in> set (drop 12 (snd en)))
      \<and> fst en \<noteq> js ''LOOP'' \<and> fst en \<noteq> js ''BPMLOCK'')"

definition colorsOf :: "(jsstring \<times> arraybuffer) list \<Rightarrow> colorARGB list" where
  "colorsOf ens = map (\<lambda>en. colorOf (snd en)) (filter (\<lambda>en. fst en = js ''COLOR'') ens)"

definition cuesOf :: "(arraybuffer \<Rightarrow> jsstring) \<Rightarrow> (jsstring \<times> arraybuffer) list \<Rightarrow> cuePoint list" where
  "cuesOf textDecode ens =
     map (\<lambda>en. cueOf textDecode (snd en)) (filter (\<lambda>en. fst en = js ''CUE'') ens)"

definition markersOf ::
  "(arraybuffer \<Rightarrow> jsstring) \<Rightarrow> (jsstring \<times> arraybuffer) list \<Rightarrow> seratorMarker2Data" where
  "markersOf textDecode ens =
     \<lparr>m_color = (if colorsOf ens = [] then None else Some (last (colorsOf ens))),
      m_cuePoints = cuesOf textDecode ens,
      m_loopEntries = [],
      m_bpmLock = Some False\<rparr>"

text \<open>
  The bytes of a Markers2 element, given as its name and its data: the name, a zero byte,
  the length of the data as a big-endian 32-bit integer, and the data. A name can be framed
  when it is not empty, holds no zero byte and decodes to as many UTF-16 code units as it
  has bytes, which every ASCII name does; the data must fit the length field.
\<close>

definition be32 :: "nat \<Rightarrow> arraybuffer" where
  "be32 n = [of_nat (n div 16777216), of_nat (n div 65536), of_nat (n div 256), of_nat n]"

definition elementBytes :: "arraybuffer \<times> arraybuffer \<Rightarrow> arraybuffer" where
  "elementBytes it = fst it @ [0] @ be32 (length (snd it)) @ snd it"

definition wellFramed :: "(arraybuffer \<Rightarrow> jsstring) \<Rightarrow> arraybuffer \<times> arraybuffer \<Rightarrow> bool" where
  "wellFramed textDecode it =
     (fst it \<noteq> [] \<and> 0 \<notin> set (fst it) \<and> length (textDecode (fst it)) = length (fst it)
      \<and> length (snd it) < 4294967296)"

text \<open>
  The elements that a payload holds from \<open>offset\<close> on, as views of the payload: the data of
  an element starts after its name, the zero byte and the four bytes of the length.
\<close>

fun framed ::
  "(arraybuffer \<Rightarrow> jsstring) \<Rightarrow> arraybuffer \<Rightarrow> nat \<Rightarrow> (arraybuffer \<times> arraybuffer) list
     \<Rightarrow> element list" where
  "framed textDecode payload offset [] = []"
| "framed textDecode payload offset (it # items) =
     \<lparr>element_name = textDecode (fst it),
      element_data = \<lparr>buffer = payload, byteOffset = offset + length (fst it) + 5,
                      byteLength = length (snd it)\<rparr>\<rparr>
     # framed textDecode payload (offset + length (fst it) + 5 + length (snd it)) items"

text \<open>
  The elements of the example payload, and the payload with the unknown element in front
  of the colour: once named by the two bytes C3 89, which are the UTF-8 encoding of one
  character, and once named \<open>XY\<close>.
\<close>

definition exampleItems :: "(arraybuffer \<times> arraybuffer) list" where
  "exampleItems =
     [(ascii ''COLOR'', [0xFF, 0x00, 0xFF, 0x80]),
      (ascii ''XYZZY'', [0xAA, 0xBB]),
      (ascii ''CUE'', [0, 2, 0, 0, 0x05, 0xDC, 0, 10, 20, 30, 0, 0] @ ascii ''Intro'' @ [0])]"

definition accentedMarkers2 :: arraybuffer where
  "accentedMarkers2 =
     [1, 1]
     @ [0xC3, 0x89] @ [0] @ [0, 0, 0, 0]
     @ ascii ''COLOR'' @ [0] @ [0, 0, 0, 4] @ [0xFF, 0x00, 0xFF, 0x80]
     @ [0]"

definition plainMarkers2 :: arraybuffer where
  "plainMarkers2 =
     [1, 1]
     @ ascii ''XY'' @ [0] @ [0, 0, 0, 0]
     @ ascii ''COLOR'' @ [0] @ [0, 0, 0, 4] @ [0xFF, 0x00, 0xFF, 0x80]
     @ [0]"

text \<open>
  \<open>Buffer.from(s, 'base64')\<close> on the Base64 strings of the three payloads, and the view on
  the data of a GEOB frame that holds a string and the zero byte after it.
\<close>

definition exampleBase64 :: "jsstring \<Rightarrow> arraybuffer" where
  "exampleBase64 s =
     (if s = js ''AQFDT0xPUgAAAAAE/wD/gFhZWlpZAAAAAAKqu0NVRQAAAAASAAIAAAXcAAoUHgAASW50cm8AAA==''
      then exampleMarkers2
      else if s = js ''AQHDiQAAAAAAQ09MT1IAAAAABP8A/4AA'' then accentedMarkers2
      else if s = js ''AQFYWQAAAAAAQ09MT1IAAAAABP8A/4AA'' then plainMarkers2
      else [])"

definition frameOf :: "string \<Rightarrow> dataview" where
  "frameOf s = \<lparr>buffer = ascii s @ [0], byteOffset = 0, byteLength = length s + 1\<rparr>"

text \<open>
  \<open>new TextDecoder().decode\<close> on ASCII bytes and on UTF-8 sequences of two bytes: a lead
  byte C2 to DF and a continuation byte 80 to BF make one code unit.
\<close>

fun utf8Decode :: "arraybuffer \<Rightarrow> jsstring" where
  "utf8Decode (b # c # bs) =
     (if 0xC2 \<le> unat b \<and> unat b < 0xE0 \<and> 0x80 \<le> unat c \<and> unat c < 0xC0
      then of_nat ((unat b - 0xC0) * 64 + (unat c - 0x80)) # utf8Decode bs
      else ucast b # utf8Decode (c # bs))"
| "utf8Decode [b] = [ucast b]"
| "utf8Decode [] = []"

text \<open>
  The equations of the loops are unconditional and recursive; they are unfolded by hand.
\<close>

declare split_from.simps [simp del]
declare parseString16_loop.simps [simp del]
declare parseInt8_loop.simps [simp del]
declare parseSectionNodes_loop.simps [simp del]
declare readNullTerminatedString_length.simps [simp del]
declare parseElements.simps [simp del]
declare parseSeratoBeatGrid_loop.simps [simp del]
declare getParentFolder.simps [simp del]

section \<open>Sections and the bounds of the buffer\<close>

lemma parseSection_Inr:
  assumes "parseSection data offset = Inr sub"
  shows "buffer (section_data sub) = data"
    and "dataOffset sub = offset + 8"
    and "offset + 8 + dataSize sub \<le> length data"
    and "section_offset sub = offset"
    and "byteOffset (section_data sub) = offset + 8"
    and "byteLength (section_data sub) = dataSize sub"
  using assms
  by (auto simp: parseSection_def newDataView_def split: sum.splits if_splits)

text \<open>
  A section whose header does not fit in the buffer fails as well. Every view that the
  constructor returns lies inside its buffer, and every read that a getter of such a view
  returns was made inside the buffer.
\<close>

lemma parseSection_header_outside:
  "length data < offset + 8 \<Longrightarrow> parseSection data offset = Inl RangeError"
  by (auto simp: parseSection_def newDataView_def getUint8_def getUint32_def split: sum.splits)

lemma newDataView_inside:
  "newDataView data off len = Inr v \<Longrightarrow> insideBuffer v \<and> buffer v = data"
  by (auto simp: newDataView_def insideBuffer_def split: if_splits option.splits)

lemma getUint8_inside:
  "insideBuffer v \<Longrightarrow> getUint8 v i = Inr x \<Longrightarrow> byteOffset v + i < length (buffer v)"
  by (auto simp: getUint8_def insideBuffer_def split: if_splits)

lemma getUint16_inside:
  "insideBuffer v \<Longrightarrow> getUint16 v i = Inr x \<Longrightarrow> byteOffset v + i + 1 < length (buffer v)"
  by (auto simp: getUint16_def insideBuffer_def split: if_splits)

lemma getUint32_inside:
  "insideBuffer v \<Longrightarrow> getUint32 v i = Inr x \<Longrightarrow> byteOffset v + i + 3 < length (buffer v)"
  by (auto simp: getUint32_def insideBuffer_def split: if_splits)

lemma parseSection_inside:
  "parseSection data offset = Inr sub \<Longrightarrow> insideBuffer (section_data sub)"
  using parseSection_Inr [of data offset sub] by (simp add: insideBuffer_def)

text \<open>
  Every exception of the section decoder is the \<open>RangeError\<close> of a view or of a getter.
\<close>

lemma newDataView_error: "newDataView data off len = Inl e \<Longrightarrow> e = RangeError"
  by (auto simp: newDataView_def split: if_splits option.splits)

lemma getUint8_error: "getUint8 v i = Inl e \<Longrightarrow> e = RangeError"
  by (auto simp: getUint8_def split: if_splits)

lemma getUint16_error: "getUint16 v i = Inl e \<Longrightarrow> e = RangeError"
  by (auto simp: getUint16_def split: if_splits)

lemma getUint32_error: "getUint32 v i = Inl e \<Longrightarrow> e = RangeError"
  by (auto simp: getUint32_def split: if_splits)

lemma parseSection_error: "parseSection data offset = Inl e \<Longrightarrow> e = RangeError"
  unfolding parseSection_def
  by (auto split: sum.splits dest: newDataView_error getUint8_error getUint32_error)

lemma parseString16_loop_error: "parseString16_loop data sz i chars = Inl e \<Longrightarrow> e = RangeError"
proof (induction data sz i chars rule: parseString16_loop.induct)
  case (1 data sz i chars)
  from "1.prems" show ?case
    by (subst (asm) parseString16_loop.simps)
       (auto split: if_splits sum.splits dest: getUint16_error "1.IH")
qed

lemma parseInt8_loop_error: "parseInt8_loop data sz i val = Inl e \<Longrightarrow> e = RangeError"
proof (induction data sz i val rule: parseInt8_loop.induct)
  case (1 data sz i val)
  from "1.prems" show ?case
    by (subst (asm) parseInt8_loop.simps)
       (auto split: if_splits sum.splits dest: getUint8_error "1.IH")
qed

lemma parseSectionNodes_loop_error:
  "parseSectionNodes_loop sec offset = Inl e \<Longrightarrow> e = RangeError"
proof (induction sec offset rule: parseSectionNodes_loop.induct)
  case (1 sec offset)
  show ?case
  proof (cases "offset < dataOffset sec + dataSize sec")
    case False
    with "1.prems" show ?thesis
      by (simp add: parseSectionNodes_loop.simps [of sec offset])
  next
    case True
    define P where "P = parseSection (buffer (section_data sec)) offset"
    define N where "N = (\<lambda>sub.
               (if section_type sub \<in> {js ''vrsn'', js ''tvcn'', js ''tvcw'', js ''ptrk''}
                then (case parseString16 (section_data sub) (dataSize sub) of
                        Inl e \<Rightarrow> Inl e
                      | Inr s \<Rightarrow> Inr (Node (section_type sub) (VString s) []))
                else if section_type sub = js ''brev''
                then (case parseInt8 (section_data sub) (dataSize sub) of
                        Inl e \<Rightarrow> Inl e
                      | Inr n \<Rightarrow> Inr (Node (section_type sub) (VNumber n) []))
                else (case parseSectionNodes_loop sub (dataOffset sub) of
                        Inl e \<Rightarrow> Inl e
                      | Inr cs \<Rightarrow> Inr (Node (section_type sub) VNull cs))))"
    have unfolded:
      "(case P of Inl e \<Rightarrow> Inl e
         | Inr sub \<Rightarrow>
            (case N sub of Inl e \<Rightarrow> Inl e
             | Inr n \<Rightarrow>
                (case parseSectionNodes_loop sec (offset + 8 + dataSize sub) of
                   Inl e \<Rightarrow> Inl e
                 | Inr nodes \<Rightarrow> Inr (n # nodes)))) = Inl e"
      using "1.prems" True unfolding P_def N_def
      by (subst (asm) parseSectionNodes_loop.simps) simp
    show ?thesis
    proof (cases P)
      case (Inl e')
      with unfolded have "e' = e" by simp
      with Inl show ?thesis using parseSection_error by (simp add: P_def)
    next
      case sub: (Inr sub)
      show ?thesis
      proof (cases "N sub")
        case (Inl e')
        with unfolded sub have e: "e' = e" by simp
        show ?thesis
        proof (cases "section_type sub \<in> {js ''vrsn'', js ''tvcn'', js ''tvcw'', js ''ptrk''}")
          case True
          with Inl e show ?thesis
            by (auto simp: N_def parseString16_def split: sum.splits dest: parseString16_loop_error)
        next
          case notstr: False
          show ?thesis
          proof (cases "section_type sub = js ''brev''")
            case True
            with Inl e notstr show ?thesis
              by (auto simp: N_def parseInt8_def split: sum.splits dest: parseInt8_loop_error)
          next
            case False
            with Inl e notstr have "parseSectionNodes_loop sub (dataOffset sub) = Inl e"
              by (auto simp: N_def split: sum.splits)
            then show ?thesis
              using "1.IH"(1) [OF True sub [unfolded P_def] notstr False] by simp
          qed
        qed
      next
        case n: (Inr n)
        with unfolded sub have "parseSectionNodes_loop sec (offset + 8 + dataSize sub) = Inl e"
          by (cases "parseSectionNodes_loop sec (offset + 8 + dataSize sub)") auto
        then show ?thesis
          using "1.IH"(2) [OF True sub [unfolded P_def] n [unfolded N_def]] by simp
      qed
    qed
  qed
qed

lemma follow_buffer:
  "follow ms sec offset = Some (sec', offset')
     \<Longrightarrow> buffer (section_data sec') = buffer (section_data sec)"
proof (induction ms arbitrary: sec offset)
  case Nil
  then show ?case by simp
next
  case (Cons m ms)
  from Cons.prems obtain sub where sub: "parseSection (buffer (section_data sec)) offset = Inr sub"
    and rest: "(m = Over \<and> follow ms sec (offset + 8 + dataSize sub) = Some (sec', offset'))
             \<or> (m = Into \<and> follow ms sub (dataOffset sub) = Some (sec', offset'))"
    by (auto split: if_splits sum.splits move.splits)
  from rest show ?case
  proof
    assume "m = Over \<and> follow ms sec (offset + 8 + dataSize sub) = Some (sec', offset')"
    then show ?thesis using Cons.IH by blast
  next
    assume "m = Into \<and> follow ms sub (dataOffset sub) = Some (sec', offset')"
    then have "buffer (section_data sec') = buffer (section_data sub)"
      using Cons.IH by blast
    with parseSection_Inr(1) [OF sub] show ?thesis by simp
  qed
qed

lemma follow_fails:
  "follow ms sec offset = Some (sec', offset')
     \<Longrightarrow> parseSectionNodes_loop sec' offset' = Inl e
     \<Longrightarrow> \<exists>e'. parseSectionNodes_loop sec offset = Inl e'"
proof (induction ms arbitrary: sec offset)
  case Nil
  then show ?case by simp
next
  case (Cons m ms)
  from Cons.prems(1) have more: "offset < dataOffset sec + dataSize sec"
    by (auto split: if_splits)
  from Cons.prems(1) obtain sub where sub: "parseSection (buffer (section_data sec)) offset = Inr sub"
    and rest: "(m = Over \<and> follow ms sec (offset + 8 + dataSize sub) = Some (sec', offset'))
             \<or> (m = Into
                  \<and> section_type sub \<notin> {js ''vrsn'', js ''tvcn'', js ''tvcw'', js ''ptrk''}
                  \<and> section_type sub \<noteq> js ''brev''
                  \<and> follow ms sub (dataOffset sub) = Some (sec', offset'))"
    by (auto split: if_splits sum.splits move.splits)
  from rest show ?case
  proof
    assume "m = Over \<and> follow ms sec (offset + 8 + dataSize sub) = Some (sec', offset')"
    then obtain e' where "parseSectionNodes_loop sec (offset + 8 + dataSize sub) = Inl e'"
      using Cons.IH Cons.prems(2) by blast
    with more sub show ?thesis
      by (subst parseSectionNodes_loop.simps) (simp split: sum.splits)
  next
    assume into: "m = Into
                  \<and> section_type sub \<notin> {js ''vrsn'', js ''tvcn'', js ''tvcw'', js ''ptrk''}
                  \<and> section_type sub \<noteq> js ''brev''
                  \<and> follow ms sub (dataOffset sub) = Some (sec', offset')"
    then obtain e' where "parseSectionNodes_loop sub (dataOffset sub) = Inl e'"
      using Cons.IH Cons.prems(2) by blast
    with more sub into show ?thesis
      by (subst parseSectionNodes_loop.simps) simp
  qed
qed

text \<open>
  C1, as the code has it. The bound that \<open>parseSection\<close> enforces is the end of the whole
  buffer, not the end of the enclosing section, and the failure is the \<open>RangeError\<close> of the
  \<open>DataView\<close> constructor. Let the loop of \<open>parseSectionNodes\<close>, started in a section at
  \<open>offset\<close>, get by passing over earlier siblings and entering containers to a position
  \<open>offset'\<close> in a section \<open>sec'\<close>, before the end of the payload of \<open>sec'\<close>. If the header
  of the section at \<open>offset'\<close> lies in the buffer and its declared big-endian length exceeds
  the bytes that remain in the buffer after the header, then \<open>parseSection\<close> fails there:
  the constructor refuses the view of the payload. The loop of \<open>sec'\<close> fails at \<open>offset'\<close>,
  and so does the loop that was started at \<open>offset\<close>, with the same \<open>RangeError\<close>. No byte
  outside the buffer is read: every view that the constructor returns on the buffer lies
  inside it, the payload of every section that \<open>parseSection\<close> returns lies inside it,
  and a read that a getter of a view inside its buffer returns was made inside the buffer.
\<close>

theorem truncated_section_fails:
  assumes path: "follow moves sec offset = Some (sec', offset')"
      and more: "offset' < dataOffset sec' + dataSize sec'"
      and header: "offset' + 8 \<le> length (buffer (section_data sec))"
      and declared: "getUint32 \<lparr>buffer = buffer (section_data sec), byteOffset = offset',
                       byteLength = length (buffer (section_data sec)) - offset'\<rparr> 4 = Inr n"
      and overrun: "length (buffer (section_data sec)) < offset' + 8 + n"
  shows "parseSection (buffer (section_data sec)) offset' = Inl RangeError
       \<and> newDataView (buffer (section_data sec)) (offset' + 8) (Some n) = Inl RangeError
       \<and> parseSectionNodes_loop sec' offset' = Inl RangeError
       \<and> parseSectionNodes_loop sec offset = Inl RangeError
       \<and> (\<forall>off len v. newDataView (buffer (section_data sec)) off len = Inr v
             \<longrightarrow> insideBuffer v)
       \<and> (\<forall>off sub. parseSection (buffer (section_data sec)) off = Inr sub
             \<longrightarrow> insideBuffer (section_data sub)
                 \<and> off + 8 + dataSize sub \<le> length (buffer (section_data sec)))
       \<and> (\<forall>v i x. insideBuffer v \<and> getUint8 v i = Inr x
             \<longrightarrow> byteOffset v + i < length (buffer v))
       \<and> (\<forall>v i x. insideBuffer v \<and> getUint16 v i = Inr x
             \<longrightarrow> byteOffset v + i + 1 < length (buffer v))
       \<and> (\<forall>v i x. insideBuffer v \<and> getUint32 v i = Inr x
             \<longrightarrow> byteOffset v + i + 3 < length (buffer v))"
proof -
  let ?data = "buffer (section_data sec)"
  have sec: "parseSection ?data offset' = Inl RangeError"
    using header declared overrun
    by (simp add: parseSection_def newDataView_def getUint8_def)
  have view: "newDataView ?data (offset' + 8) (Some n) = Inl RangeError"
    using overrun by (simp add: newDataView_def)
  have "buffer (section_data sec') = ?data"
    using follow_buffer [OF path] .
  with sec more have inner: "parseSectionNodes_loop sec' offset' = Inl RangeError"
    by (simp add: parseSectionNodes_loop.simps [of sec' offset'])
  from follow_fails [OF path inner] obtain e' where "parseSectionNodes_loop sec offset = Inl e'"
    by blast
  with parseSectionNodes_loop_error [of sec offset e']
  have outer: "parseSectionNodes_loop sec offset = Inl RangeError" by simp
  have views: "\<forall>off len v. newDataView ?data off len = Inr v \<longrightarrow> insideBuffer v"
    using newDataView_inside by blast
  have sections: "\<forall>off sub. parseSection ?data off = Inr sub
             \<longrightarrow> insideBuffer (section_data sub) \<and> off + 8 + dataSize sub \<le> length ?data"
    using parseSection_inside parseSection_Inr(3) by blast
  have g8: "\<forall>v i x. insideBuffer v \<and> getUint8 v i = Inr x \<longrightarrow> byteOffset v + i < length (buffer v)"
    using getUint8_inside by blast
  have g16: "\<forall>v i x. insideBuffer v \<and> getUint16 v i = Inr x \<longrightarrow> byteOffset v + i + 1 < length (buffer v)"
    using getUint16_inside by blast
  have g32: "\<forall>v i x. insideBuffer v \<and> getUint32 v i = Inr x \<longrightarrow> byteOffset v + i + 3 < length (buffer v)"
    using getUint32_inside by blast
  from sec view inner outer views sections g8 g16 g32 show ?thesis by blast
qed

text \<open>
  Witness for C1: in the crate with the truncated section the loop of the root passes
  over \<open>osrt\<close> and enters \<open>otrk\<close>, where the section at offset 16 declares 100 payload bytes
  and 4 remain. The last byte of the view of \<open>otrk\<close> is the last byte of the buffer, and the
  getter refuses the index after it.
\<close>

theorem truncated_section_fails_witness:
  "follow [Over, Into] (rootSection truncatedCrate) 0
     = Some (\<lparr>section_type = js ''otrk'', section_offset = 8, dataOffset = 16, dataSize = 12,
              section_data = \<lparr>buffer = truncatedCrate, byteOffset = 16, byteLength = 12\<rparr>\<rparr>, 16)
   \<and> length truncatedCrate = 28
   \<and> getUint32 \<lparr>buffer = truncatedCrate, byteOffset = 16, byteLength = 12\<rparr> 4 = Inr 100
   \<and> parseSection truncatedCrate 16 = Inl RangeError
   \<and> parseSectionNodes (rootSection truncatedCrate) = Inl RangeError
   \<and> insideBuffer \<lparr>buffer = truncatedCrate, byteOffset = 16, byteLength = 12\<rparr>
   \<and> getUint8 \<lparr>buffer = truncatedCrate, byteOffset = 16, byteLength = 12\<rparr> 11 = Inr 0x62
   \<and> getUint8 \<lparr>buffer = truncatedCrate, byteOffset = 16, byteLength = 12\<rparr> 12 = Inl RangeError"
  using truncated_section_fails [of "[Over, Into]" "rootSection truncatedCrate" 0
          "\<lparr>section_type = js ''otrk'', section_offset = 8, dataOffset = 16, dataSize = 12,
            section_data = \<lparr>buffer = truncatedCrate, byteOffset = 16, byteLength = 12\<rparr>\<rparr>" 16 100]
  by (simp add: truncatedCrate_def ascii_def insideBuffer_def
        parseSectionNodes_def rootSection_def parseSection_def newDataView_def
        getUint8_def getUint32_def getUint16_def viewByte_def js_def fromCharCode_def
        parseString16_def parseSectionNodes_loop.simps parseString16_loop.simps)

text \<open>
  Counterexample to C1 as stated. The section \<open>otrk\<close> at offset 0 has the payload range
  8 to 15, which its child \<open>ptrk\<close> fills with its header alone; the child declares 8
  payload bytes where none remain in \<open>otrk\<close>. The child is decoded without an error from
  the bytes at 16 to 23, which lie after \<open>otrk\<close> and are decoded again as the next
  top-level section \<open>xxxx\<close>.
\<close>

theorem parseSectionNodes_overrun_counterexample:
  "parseSection [0x6f,0x74,0x72,0x6b, 0,0,0,8, 0x70,0x74,0x72,0x6b, 0,0,0,8,
                 0x78,0x78,0x78,0x78, 0,0,0,0] 8
     = Inr \<lparr>section_type = js ''ptrk'', section_offset = 8, dataOffset = 16, dataSize = 8,
            section_data = \<lparr>buffer = [0x6f,0x74,0x72,0x6b, 0,0,0,8, 0x70,0x74,0x72,0x6b, 0,0,0,8,
                 0x78,0x78,0x78,0x78, 0,0,0,0], byteOffset = 16, byteLength = 8\<rparr>\<rparr>
   \<and> parseSectionNodes (rootSection [0x6f,0x74,0x72,0x6b, 0,0,0,8, 0x70,0x74,0x72,0x6b, 0,0,0,8,
                 0x78,0x78,0x78,0x78, 0,0,0,0])
     = Inr [Node (js ''otrk'') VNull [Node (js ''ptrk'') (VString [0x7878, 0x7878]) []],
            Node (js ''xxxx'') VNull []]"
  by (simp add: parseSectionNodes_def rootSection_def parseSection_def newDataView_def
        getUint8_def getUint32_def getUint16_def viewByte_def js_def fromCharCode_def
        parseString16_def parseSectionNodes_loop.simps parseString16_loop.simps)

section \<open>The crate document\<close>

lemmas eval_defs = parseSectionNodes_def rootSection_def parseSection_def newDataView_def
        getUint8_def getUint32_def getUint16_def viewByte_def js_def fromCharCode_def
        parseString16_def parseSectionNodes_loop.simps parseString16_loop.simps
        ascii_def utf16be_def


lemma split_from_nonempty: "split_from sep cur s \<noteq> []"
  by (induction sep cur s rule: split_from.induct) (subst split_from.simps, simp)

lemma split_nonempty: "split s sep \<noteq> []"
  by (simp add: split_def split_from_nonempty)

text \<open>
  The values that \<open>parseCrate\<close> casts to strings are strings: every node that the section
  decoder builds for a string tag carries the result of \<open>parseString16\<close>.
\<close>

lemma parseSectionNodes_loop_string_nodes:
  "parseSectionNodes_loop sec offset = Inr nodes \<Longrightarrow> \<forall>n\<in>set nodes. stringNode n"
proof (induction sec offset arbitrary: nodes rule: parseSectionNodes_loop.induct)
  case (1 sec offset)
  show ?case
  proof (cases "offset < dataOffset sec + dataSize sec")
    case False
    with "1.prems" show ?thesis
      by (simp add: parseSectionNodes_loop.simps [of sec offset])
  next
    case True
    define P where "P = parseSection (buffer (section_data sec)) offset"
    define N where "N = (\<lambda>sub.
               (if section_type sub \<in> {js ''vrsn'', js ''tvcn'', js ''tvcw'', js ''ptrk''}
                then (case parseString16 (section_data sub) (dataSize sub) of
                        Inl e \<Rightarrow> Inl e
                      | Inr s \<Rightarrow> Inr (Node (section_type sub) (VString s) []))
                else if section_type sub = js ''brev''
                then (case parseInt8 (section_data sub) (dataSize sub) of
                        Inl e \<Rightarrow> Inl e
                      | Inr n \<Rightarrow> Inr (Node (section_type sub) (VNumber n) []))
                else (case parseSectionNodes_loop sub (dataOffset sub) of
                        Inl e \<Rightarrow> Inl e
                      | Inr cs \<Rightarrow> Inr (Node (section_type sub) VNull cs))))"
    have unfolded:
      "(case P of Inl e \<Rightarrow> Inl e
         | Inr sub \<Rightarrow>
            (case N sub of Inl e \<Rightarrow> Inl e
             | Inr n \<Rightarrow>
                (case parseSectionNodes_loop sec (offset + 8 + dataSize sub) of
                   Inl e \<Rightarrow> Inl e
                 | Inr nodes \<Rightarrow> Inr (n # nodes)))) = Inr nodes"
      using "1.prems" True unfolding P_def N_def
      by (subst (asm) parseSectionNodes_loop.simps) simp
    then obtain sub where sub: "P = Inr sub"
      by (cases P) auto
    with unfolded obtain n where n: "N sub = Inr n"
      by (cases "N sub") auto
    with unfolded sub obtain ns
      where ns: "parseSectionNodes_loop sec (offset + 8 + dataSize sub) = Inr ns"
        and nodes: "nodes = n # ns"
      by (cases "parseSectionNodes_loop sec (offset + 8 + dataSize sub)") auto
    have tl: "\<forall>m\<in>set ns. stringNode m"
      using "1.IH"(2) [OF True sub [unfolded P_def] n [unfolded N_def] ns] .
    have hd: "stringNode n"
    proof (cases "section_type sub \<in> {js ''vrsn'', js ''tvcn'', js ''tvcw'', js ''ptrk''}")
      case True
      with n show ?thesis by (auto simp: N_def split: sum.splits)
    next
      case notstr: False
      show ?thesis
      proof (cases "section_type sub = js ''brev''")
        case True
        with n notstr show ?thesis by (auto simp: N_def split: sum.splits)
      next
        case False
        with n notstr obtain cs where cs: "parseSectionNodes_loop sub (dataOffset sub) = Inr cs"
          and n_eq: "n = Node (section_type sub) VNull cs"
          by (auto simp: N_def split: sum.splits)
        have "\<forall>c\<in>set cs. stringNode c"
          using "1.IH"(1) [OF True sub [unfolded P_def] notstr False cs] .
        with n_eq notstr show ?thesis by simp
      qed
    qed
    from hd tl nodes show ?thesis by simp
  qed
qed

lemma parseSectionNodes_string_nodes:
  "parseSectionNodes sec = Inr nodes \<Longrightarrow> \<forall>n\<in>set nodes. stringNode n"
  unfolding parseSectionNodes_def by (rule parseSectionNodes_loop_string_nodes)

lemma parsed_ptrk_string:
  assumes nodes: "parseSectionNodes sec = Inr nodes" and n: "n \<in> set nodes"
      and p: "findNode (node_children n) (js ''ptrk'') = Some p"
  shows "\<exists>s. node_value p = VString s"
proof -
  from parseSectionNodes_string_nodes [OF nodes] n have "stringNode n" by simp
  moreover from p have "p \<in> set (node_children n)" and "node_type p = js ''ptrk''"
    by (auto simp: findNode_def find_Some_iff)
  ultimately have "stringNode p" by (cases n) auto
  with \<open>node_type p = js ''ptrk''\<close> show ?thesis by (cases p) auto
qed

lemma findNode_first:
  assumes "\<forall>b\<in>set before. node_type b \<noteq> t" and "node_type p = t"
  shows "findNode (before @ p # after) t = Some p"
  using assms by (induction before) (simp_all add: findNode_def)

lemma parseCrate_tracks_first_ptrk:
  assumes "\<forall>n\<in>set ns. node_type n = js ''otrk'' \<longrightarrow>
             (\<exists>before p after. node_children n = before @ p # after
                  \<and> (\<forall>b\<in>set before. node_type b \<noteq> js ''ptrk'')
                  \<and> node_type p = js ''ptrk''
                  \<and> node_value p = VString (pathOf n))"
  shows "parseCrate_tracks ns =
           Inr (map (\<lambda>n. \<lparr>track_path = pathOf n\<rparr>) (filter (\<lambda>n. node_type n = js ''otrk'') ns))"
  using assms
proof (induction ns)
  case Nil
  show ?case by simp
next
  case (Cons n ns)
  then have rest: "parseCrate_tracks ns =
           Inr (map (\<lambda>n. \<lparr>track_path = pathOf n\<rparr>) (filter (\<lambda>n. node_type n = js ''otrk'') ns))"
    by simp
  show ?case
  proof (cases "node_type n = js ''otrk''")
    case False
    with rest show ?thesis by simp
  next
    case True
    with Cons.prems obtain before p after where
      "node_children n = before @ p # after"
      "\<forall>b\<in>set before. node_type b \<noteq> js ''ptrk''"
      "node_type p = js ''ptrk''" and v: "node_value p = VString (pathOf n)"
      by auto
    then have "findNode (node_children n) (js ''ptrk'') = Some p"
      by (simp add: findNode_first)
    with True rest v show ?thesis by (simp add: findNodeOrThrow_def)
  qed
qed

lemma exampleCrate_nodes:
  "parseSectionNodes (rootSection exampleCrate) =
     Inr [Node (js ''vrsn'') (VString (js ''1.0/Serato ScratchLive Crate'')) [],
          Node (js ''otrk'') VNull [Node (js ''tvcn'') (VString (js ''x'')) [],
                                    Node (js ''ptrk'') (VString (js ''a'')) []],
          Node (js ''osrt'') VNull [],
          Node (js ''otrk'') VNull [Node (js ''ptrk'') (VString (js ''b'')) []]]"
  by (simp add: exampleCrate_def eval_defs)

text \<open>
  C2. When the top-level nodes of the buffer are a version node with the expected value
  followed by \<open>rest\<close>, and every \<open>otrk\<close> node of \<open>rest\<close> has a child with the tag
  \<open>ptrk\<close> whose string is \<open>pathOf\<close> of that node (the first child with that tag, should
  there be several), then \<open>parseCrate\<close> returns a crate whose tracks are the paths of the
  \<open>otrk\<close> nodes of \<open>rest\<close>, one for each and in their order; the nodes with other tags
  add nothing.
\<close>

theorem parseCrate_tracks_in_order:
  assumes nodes: "parseSectionNodes (rootSection data) = Inr (v # rest)"
      and tag: "node_type v = js ''vrsn''"
      and version: "node_value v = VString (js ''1.0/Serato ScratchLive Crate'')"
      and entries: "\<forall>n\<in>set rest. node_type n = js ''otrk'' \<longrightarrow>
             (\<exists>before p after. node_children n = before @ p # after
                  \<and> (\<forall>b\<in>set before. node_type b \<noteq> js ''ptrk'')
                  \<and> node_type p = js ''ptrk''
                  \<and> node_value p = VString (pathOf n))"
  shows "parseCrate path data =
           Inr \<lparr>crate_name = split (filenameWithoutExtension path) (js ''%%''),
                crate_version = js ''1.0/Serato ScratchLive Crate'',
                crate_tracks = map (\<lambda>n. \<lparr>track_path = pathOf n\<rparr>)
                                   (filter (\<lambda>n. node_type n = js ''otrk'') rest)\<rparr>"
  using nodes tag version parseCrate_tracks_first_ptrk [OF entries]
  by (simp add: parseCrate_def expectNodeType_def)

text \<open>
  Witness for C2: the example crate, with two track entries around a node \<open>osrt\<close>; in the
  first entry a child \<open>tvcn\<close> precedes the child \<open>ptrk\<close>.
\<close>

theorem parseCrate_tracks_in_order_witness:
  "parseCrate (js ''/Subcrates/House%%Deep.crate'') exampleCrate =
     Inr \<lparr>crate_name = [js ''House'', js ''Deep''],
          crate_version = js ''1.0/Serato ScratchLive Crate'',
          crate_tracks = [\<lparr>track_path = js ''a''\<rparr>, \<lparr>track_path = js ''b''\<rparr>]\<rparr>"
proof -
  let ?first = "Node (js ''otrk'') VNull [Node (js ''tvcn'') (VString (js ''x'')) [],
                                         Node (js ''ptrk'') (VString (js ''a'')) []]"
  let ?second = "Node (js ''otrk'') VNull [Node (js ''ptrk'') (VString (js ''b'')) []]"
  let ?pathOf = "\<lambda>n. asString (node_value (last (node_children n)))"
  have different: "js ''tvcn'' \<noteq> js ''ptrk''" "js ''osrt'' \<noteq> js ''otrk''"
    by (simp_all add: js_def)
  have first: "\<exists>before p after. node_children ?first = before @ p # after
                  \<and> (\<forall>b\<in>set before. node_type b \<noteq> js ''ptrk'')
                  \<and> node_type p = js ''ptrk''
                  \<and> node_value p = VString (?pathOf ?first)"
    using different
    by (intro exI [of _ "[Node (js ''tvcn'') (VString (js ''x'')) []]"]
              exI [of _ "Node (js ''ptrk'') (VString (js ''a'')) []"] exI [of _ "[]"]) simp
  have second: "\<exists>before p after. node_children ?second = before @ p # after
                  \<and> (\<forall>b\<in>set before. node_type b \<noteq> js ''ptrk'')
                  \<and> node_type p = js ''ptrk''
                  \<and> node_value p = VString (?pathOf ?second)"
    by (intro exI [of _ "[]"] exI [of _ "Node (js ''ptrk'') (VString (js ''b'')) []"]
              exI [of _ "[]"]) simp
  have entries: "\<forall>n\<in>set [?first, Node (js ''osrt'') VNull [], ?second].
           node_type n = js ''otrk'' \<longrightarrow>
             (\<exists>before p after. node_children n = before @ p # after
                  \<and> (\<forall>b\<in>set before. node_type b \<noteq> js ''ptrk'')
                  \<and> node_type p = js ''ptrk''
                  \<and> node_value p = VString (?pathOf n))"
    using first second different by simp
  have name: "split (filenameWithoutExtension (js ''/Subcrates/House%%Deep.crate'')) (js ''%%'')
                = [js ''House'', js ''Deep'']"
    by (simp add: filenameWithoutExtension_def split_def split_from.simps js_def)
  from parseCrate_tracks_in_order [OF exampleCrate_nodes _ _ entries,
          of "js ''/Subcrates/House%%Deep.crate''"] different name
  show ?thesis by simp
qed

lemma parseCrate_decode_error:
  "parseSectionNodes (rootSection data) = Inl e \<Longrightarrow> parseCrate path data = Inl e"
  by (simp add: parseCrate_def)

text \<open>
  C3. When the buffer decodes to no node at all, or its first node has another tag than
  \<open>vrsn\<close>, or that node's value is not the string \<open>1.0/Serato ScratchLive Crate\<close>, then
  \<open>parseCrate\<close> returns an error and no crate: \<open>No sections found\<close>, the unexpected node
  type, or the unsupported version, in this order of precedence.
\<close>

theorem parseCrate_rejects_version:
  assumes nodes: "parseSectionNodes (rootSection data) = Inr nodes"
      and bad: "nodes = [] \<or> node_type (hd nodes) \<noteq> js ''vrsn''
                \<or> node_value (hd nodes) \<noteq> VString (js ''1.0/Serato ScratchLive Crate'')"
  shows "parseCrate path data =
           Inl (if nodes = [] then NoSectionsFound
                else if node_type (hd nodes) \<noteq> js ''vrsn''
                     then UnexpectedNodeType (js ''vrsn'') (node_type (hd nodes))
                else UnsupportedCrateVersion (node_value (hd nodes)))"
  using nodes bad
  by (cases nodes) (auto simp: parseCrate_def expectNodeType_def)

text \<open>Witness for C3: a crate whose version node holds the string \<open>2\<close>.\<close>

theorem parseCrate_rejects_version_witness:
  "parseCrate (js ''/Subcrates/House.crate'') wrongVersionCrate
     = Inl (UnsupportedCrateVersion (VString (js ''2'')))"
  using parseCrate_rejects_version [of wrongVersionCrate
          "[Node (js ''vrsn'') (VString (js ''2'')) []]" "js ''/Subcrates/House.crate''"]
  by (simp add: wrongVersionCrate_def eval_defs)

text \<open>
  When the file name has no dot before the one of its extension, \<open>filenameWithoutExtension\<close>
  is the file name without its extension.
\<close>

lemma split_from_single_free:
  "d \<notin> set s \<Longrightarrow> split_from [d] cur s = [cur @ s]"
proof (induction s arbitrary: cur)
  case Nil
  show ?case by (subst split_from.simps) simp
next
  case (Cons c cs)
  then have "split_from [d] (cur @ [c]) cs = [(cur @ [c]) @ cs]" by simp
  with Cons.prems show ?case by (subst split_from.simps) auto
qed

lemma split_from_single_first:
  "d \<notin> set xs \<Longrightarrow> split_from [d] cur (xs @ d # ys) = (cur @ xs) # split_from [d] [] ys"
proof (induction xs arbitrary: cur)
  case Nil
  show ?case by (subst split_from.simps) simp
next
  case (Cons c cs)
  then have "split_from [d] (cur @ [c]) (cs @ d # ys) = ((cur @ [c]) @ cs) # split_from [d] [] ys"
    by simp
  with Cons.prems show ?case by (subst split_from.simps) auto
qed

lemma last_split_from_single:
  "d \<notin> set ys \<Longrightarrow> last (split_from [d] cur (xs @ d # ys)) = ys"
proof (induction xs arbitrary: cur)
  case Nil
  then show ?case
    by (subst split_from.simps) (simp add: split_from_single_free)
next
  case (Cons c cs)
  show ?case
  proof (cases "c = d")
    case True
    with Cons.IH [OF Cons.prems, of "[]"] show ?thesis
      by (subst split_from.simps) (simp add: split_from_nonempty)
  next
    case False
    with Cons.IH [OF Cons.prems, of "cur @ [c]"] show ?thesis
      by (subst split_from.simps) simp
  qed
qed

lemma filenameWithoutExtension_single_dot:
  assumes "of_char CHR ''/'' \<notin> set stem" and "of_char CHR ''/'' \<notin> set ext"
      and "of_char CHR ''.'' \<notin> set stem"
  shows "filenameWithoutExtension (dir @ js ''/'' @ stem @ js ''.'' @ ext) = stem"
proof -
  have slash: "of_char CHR ''/'' \<notin> set (stem @ js ''.'' @ ext)"
    using assms by (simp add: js_def)
  have "last (split (dir @ js ''/'' @ stem @ js ''.'' @ ext) (js ''/'')) = stem @ js ''.'' @ ext"
    using last_split_from_single [OF slash, of "[]" dir] by (simp add: split_def js_def)
  moreover have "hd (split (stem @ js ''.'' @ ext) (js ''.'')) = stem"
    using split_from_single_first [OF assms(3), of "[]" ext] by (simp add: split_def js_def)
  ultimately show ?thesis by (simp add: filenameWithoutExtension_def)
qed

lemma parseCrate_name:
  "parseCrate path data = Inr c \<Longrightarrow> crate_name c = split (filenameWithoutExtension path) (js ''%%'')"
  by (auto simp: parseCrate_def split: sum.splits if_splits)

text \<open>
  C5 at the file name \<open>Vol.1%%Mix.crate\<close>. The claim gives the name \<open>Vol.1\<close>, \<open>Mix\<close>:
  the extension \<open>.crate\<close> stripped, the rest split at \<open>%%\<close>. The code keeps what precedes
  the first dot of the file name, so the name is the single segment \<open>Vol\<close>.
\<close>

theorem parseCrate_name_first_dot:
  "parseCrate (js ''/Subcrates/Vol.1%%Mix.crate'') versionOnlyCrate =
     Inr \<lparr>crate_name = [js ''Vol''],
          crate_version = js ''1.0/Serato ScratchLive Crate'',
          crate_tracks = []\<rparr>"
  by (simp add: parseCrate_def expectNodeType_def versionOnlyCrate_def eval_defs
        filenameWithoutExtension_def split_def split_from.simps)

section \<open>Integer leaves\<close>

lemma littleEndian_bound: "littleEndian bs < 256 ^ length bs"
proof (induction bs)
  case Nil
  show ?case by simp
next
  case (Cons b bs)
  have "unat b < 256" using unsigned_less [of b] by simp
  with Cons show ?case by simp
qed

lemma littleEndian_append: "littleEndian (xs @ ys) = littleEndian xs + 256 ^ length xs * littleEndian ys"
  by (induction xs) (simp_all add: algebra_simps)

lemma littleEndian_take_Suc:
  "i < length xs \<Longrightarrow> littleEndian (take (Suc i) xs) = littleEndian (take i xs) + unat (xs ! i) * 256 ^ i"
  by (simp add: take_Suc_conv_app_nth littleEndian_append)

lemma nat_or_push_bit:
  fixes m :: nat
  assumes "m < 2 ^ k"
  shows "m OR push_bit k b = m + b * 2 ^ k"
proof -
  have "m + push_bit k b = m OR push_bit k b"
  proof (rule disjunctive_add)
    fix n
    show "\<not> bit m n \<or> \<not> bit (push_bit k b) n"
    proof (cases "n < k")
      case True
      then show ?thesis by (simp add: bit_push_bit_iff)
    next
      case False
      then have "2 ^ k \<le> (2::nat) ^ n" by simp
      with assms have "m < 2 ^ n" by linarith
      then have "\<not> bit m n" by (simp add: bit_iff_odd)
      then show ?thesis by simp
    qed
  qed
  then show ?thesis by (simp add: push_bit_eq_mult)
qed

lemma word_or_push_bit:
  assumes "m < 2 ^ k"
  shows "(of_nat m :: 32 word) OR push_bit k (of_nat b) = of_nat (m + b * 2 ^ k)"
proof -
  have "(of_nat m :: 32 word) OR push_bit k (of_nat b) = of_nat (m OR push_bit k b)"
    by (simp add: of_nat_or_eq of_nat_push_bit)
  with assms show ?thesis by (simp add: nat_or_push_bit)
qed

lemma parseInt8_loop_littleEndian:
  assumes "off + sz \<le> length b" and "sz \<le> 4"
  shows "i \<le> sz \<Longrightarrow>
         parseInt8_loop \<lparr>buffer = b, byteOffset = off, byteLength = sz\<rparr> sz i
             (of_nat (littleEndian (take i (drop off b))))
           = Inr (of_nat (littleEndian (take sz (drop off b))))"
proof (induction "sz - i" arbitrary: i)
  case 0
  then show ?case by (subst parseInt8_loop.simps) simp
next
  case (Suc n)
  then have lt: "i < sz" by simp
  with assms have i4: "i < 4" by simp
  then have shift: "(i * 8) mod 32 = 8 * i" by simp
  have len: "i < length (drop off b)" using lt assms by simp
  have byte: "getUint8 \<lparr>buffer = b, byteOffset = off, byteLength = sz\<rparr> i = Inr (unat (drop off b ! i))"
    using lt assms by (simp add: getUint8_def viewByte_def)
  have bound: "littleEndian (take i (drop off b)) < 2 ^ (8 * i)"
    using littleEndian_bound [of "take i (drop off b)"] len
    by (simp add: power_mult min_def)
  have step: "(of_nat (littleEndian (take i (drop off b))) :: 32 word)
                OR push_bit ((i * 8) mod 32) (of_nat (unat (drop off b ! i)))
              = of_nat (littleEndian (take (Suc i) (drop off b)))"
    using word_or_push_bit [OF bound, of "unat (drop off b ! i)"] littleEndian_take_Suc [OF len]
    by (simp add: shift power_mult)
  have "n = sz - Suc i" using Suc.hyps(2) by simp
  from Suc.hyps(1) [OF this] lt
  have "parseInt8_loop \<lparr>buffer = b, byteOffset = off, byteLength = sz\<rparr> sz (Suc i)
             (of_nat (littleEndian (take (Suc i) (drop off b))))
           = Inr (of_nat (littleEndian (take sz (drop off b))))" by simp
  with lt byte step show ?case
    by (subst parseInt8_loop.simps) simp
qed

lemma sint_word_of_nat_small:
  assumes "n < 2 ^ 31"
  shows "sint (of_nat n :: 32 word) = int n"
proof -
  have "sint (of_nat n :: 32 word) = signed_take_bit 31 (int n)"
    by (simp add: signed_of_nat)
  also have "\<dots> = int n"
    using assms by (simp add: signed_take_bit_int_eq_self)
  finally show ?thesis .
qed

lemma parseInt8_loop_orShifted:
  assumes "off + sz \<le> length b"
  shows "i \<le> sz \<Longrightarrow>
         parseInt8_loop \<lparr>buffer = b, byteOffset = off, byteLength = sz\<rparr> sz i acc
           = Inr (acc OR orShifted i (drop i (take sz (drop off b))))"
proof (induction "sz - i" arbitrary: i acc)
  case 0
  then show ?case by (subst parseInt8_loop.simps) simp
next
  case (Suc n)
  let ?xs = "take sz (drop off b)"
  from Suc have lt: "i < sz" by simp
  have len: "length ?xs = sz" using assms by simp
  have byte: "getUint8 \<lparr>buffer = b, byteOffset = off, byteLength = sz\<rparr> i = Inr (unat (?xs ! i))"
    using lt assms by (simp add: getUint8_def viewByte_def)
  have split: "drop i ?xs = ?xs ! i # drop (i + 1) ?xs"
    by (metis Cons_nth_drop_Suc Suc_eq_plus1 len lt)
  have "n = sz - (i + 1)" using Suc.hyps(2) by simp
  from Suc.hyps(1) [OF this, of "acc OR push_bit ((i * 8) mod 32) (ucast (?xs ! i))"] lt
  have rest: "parseInt8_loop \<lparr>buffer = b, byteOffset = off, byteLength = sz\<rparr> sz (i + 1)
            (acc OR push_bit ((i * 8) mod 32) (ucast (?xs ! i)))
          = Inr ((acc OR push_bit ((i * 8) mod 32) (ucast (?xs ! i))) OR orShifted (i + 1) (drop (i + 1) ?xs))"
    by simp
  have "parseInt8_loop \<lparr>buffer = b, byteOffset = off, byteLength = sz\<rparr> sz i acc
          = parseInt8_loop \<lparr>buffer = b, byteOffset = off, byteLength = sz\<rparr> sz (i + 1)
              (acc OR push_bit ((i * 8) mod 32) (ucast (?xs ! i)))"
    using lt byte by (subst parseInt8_loop.simps) simp
  also note rest
  also have "(acc OR push_bit ((i * 8) mod 32) (ucast (?xs ! i))) OR orShifted (i + 1) (drop (i + 1) ?xs)
          = acc OR orShifted i (drop i ?xs)"
    by (simp only: split orShifted.simps or.assoc)
  finally show ?case .
qed

lemma parseInt8_orShifted:
  assumes "insideBuffer v"
  shows "parseInt8 v (byteLength v) = Inr (sint (orShifted 0 (viewBytes v)))"
proof (cases v)
  case (fields b off sz)
  with assms have "off + sz \<le> length b"
    by (simp add: insideBuffer_def)
  from parseInt8_loop_orShifted [OF this, of 0 0] fields show ?thesis
    by (simp add: viewBytes_def parseInt8_def)
qed

lemma orShifted_littleEndian:
  assumes "length bs \<le> 4"
  shows "orShifted 0 bs = word_of_nat (littleEndian bs)"
proof -
  have "parseInt8_loop \<lparr>buffer = bs, byteOffset = 0, byteLength = length bs\<rparr> (length bs) 0 0
          = Inr (orShifted 0 bs)"
    using parseInt8_loop_orShifted [of 0 "length bs" bs 0 0] by simp
  moreover have "parseInt8_loop \<lparr>buffer = bs, byteOffset = 0, byteLength = length bs\<rparr> (length bs) 0 0
          = Inr (word_of_nat (littleEndian bs))"
    using parseInt8_loop_littleEndian [of 0 "length bs" bs 0] assms by simp
  ultimately show ?thesis by simp
qed

lemma sint_littleEndian_small:
  assumes "length bs \<le> 3"
  shows "sint (word_of_nat (littleEndian bs) :: 32 word) = int (littleEndian bs)"
proof -
  have "littleEndian bs < 256 ^ length bs" by (rule littleEndian_bound)
  also have "(256::nat) ^ length bs \<le> 256 ^ 3"
    using assms by (intro power_increasing) simp_all
  finally have "littleEndian bs < 2 ^ 31" by simp
  then show ?thesis by (rule sint_word_of_nat_small)
qed

text \<open>
  C4, as the code has it. A section tagged \<open>brev\<close> that \<open>parseSectionNodes\<close> meets at
  \<open>offset\<close> becomes a node with no children whose value is the number that \<open>parseInt8\<close>
  returns on the payload, whatever the length of the payload: the bitwise OR of the bytes,
  byte \<open>i\<close> shifted left by \<open>(8 * i) mod 32\<close> bits, read as a signed 32-bit integer. For a
  payload of at most four bytes that is the little-endian value of the payload
  (\<open>b0 + b1 * 256 + ...\<close>) read as a signed 32-bit integer, and for at most three bytes it
  is the little-endian value itself. The nodes after it are those of the rest of the
  enclosing section.
\<close>

theorem brev_section_value:
  assumes sub: "parseSection (buffer (section_data sec)) offset = Inr sub"
      and tag: "section_type sub = js ''brev''"
      and more: "offset < dataOffset sec + dataSize sec"
  shows "parseSectionNodes_loop sec offset =
           (case parseSectionNodes_loop sec (offset + 8 + dataSize sub) of
              Inl e \<Rightarrow> Inl e
            | Inr nodes \<Rightarrow>
                Inr (Node (js ''brev'')
                       (VNumber (sint (orShifted 0 (viewBytes (section_data sub))))) [] # nodes))
       \<and> parseInt8 (section_data sub) (dataSize sub)
           = Inr (sint (orShifted 0 (viewBytes (section_data sub))))
       \<and> (dataSize sub \<le> 4 \<longrightarrow>
            orShifted 0 (viewBytes (section_data sub))
              = word_of_nat (littleEndian (viewBytes (section_data sub))))
       \<and> (dataSize sub \<le> 3 \<longrightarrow>
            sint (orShifted 0 (viewBytes (section_data sub)))
              = int (littleEndian (viewBytes (section_data sub))))"
proof -
  let ?payload = "viewBytes (section_data sub)"
  from parseSection_Inr [OF sub] have size: "byteLength (section_data sub) = dataSize sub"
    and inside: "insideBuffer (section_data sub)"
    by (simp_all add: insideBuffer_def)
  then have len: "length ?payload = dataSize sub"
    by (simp add: viewBytes_def insideBuffer_def)
  have int: "parseInt8 (section_data sub) (dataSize sub) = Inr (sint (orShifted 0 ?payload))"
    using parseInt8_orShifted [OF inside] size by simp
  have notstring: "js ''brev'' \<notin> {js ''vrsn'', js ''tvcn'', js ''tvcw'', js ''ptrk''}"
    by (simp add: js_def)
  have loop: "parseSectionNodes_loop sec offset =
           (case parseSectionNodes_loop sec (offset + 8 + dataSize sub) of
              Inl e \<Rightarrow> Inl e
            | Inr nodes \<Rightarrow> Inr (Node (js ''brev'') (VNumber (sint (orShifted 0 ?payload))) [] # nodes))"
    using sub tag more int notstring
    by (subst parseSectionNodes_loop.simps) simp
  have four: "dataSize sub \<le> 4 \<Longrightarrow> orShifted 0 ?payload = word_of_nat (littleEndian ?payload)"
    using len orShifted_littleEndian [of ?payload] by simp
  have three: "dataSize sub \<le> 3 \<Longrightarrow> sint (orShifted 0 ?payload) = int (littleEndian ?payload)"
    using len orShifted_littleEndian [of ?payload] sint_littleEndian_small [of ?payload] by simp
  from loop int four three show ?thesis by blast
qed

text \<open>Witness for C4: a crate that holds one \<open>brev\<close> section with the payload 1, 2.\<close>

theorem brev_section_value_witness:
  "parseSectionNodes (rootSection (brevSection [1, 2])) = Inr [Node (js ''brev'') (VNumber 513) []]
   \<and> littleEndian [1, 2] = 513"
  using brev_section_value [of "rootSection (brevSection [1, 2])" 0
          "\<lparr>section_type = js ''brev'', section_offset = 0, dataOffset = 8, dataSize = 2,
            section_data = \<lparr>buffer = brevSection [1, 2], byteOffset = 8, byteLength = 2\<rparr>\<rparr>"]
  by (simp add: parseInt8_def parseInt8_loop.simps brevSection_def eval_defs)

text \<open>
  Counterexample to C4 as stated: the payload 1, 0 has the big-endian value 256, and
  \<open>parseInt8\<close> returns 1, also as the value of a \<open>brev\<close> section decoded from a buffer.
  Beyond four bytes the shift count wraps: the fifth byte of 1, 0, 0, 0, 2 lands on the
  first, and the result 3 is not the little-endian value 8589934593. With four bytes the
  top bit is the sign: 0, 0, 0, 128 gives a negative number.
\<close>

theorem parseInt8_counterexample:
  "parseInt8 \<lparr>buffer = [1, 0], byteOffset = 0, byteLength = 2\<rparr> 2 = Inr 1
   \<and> bigEndian [1, 0] = 256
   \<and> parseSectionNodes (rootSection (brevSection [1, 0])) = Inr [Node (js ''brev'') (VNumber 1) []]
   \<and> parseInt8 \<lparr>buffer = [1, 0, 0, 0, 2], byteOffset = 0, byteLength = 5\<rparr> 5 = Inr 3
   \<and> littleEndian [1, 0, 0, 0, 2] = 8589934593
   \<and> parseInt8 \<lparr>buffer = [0, 0, 0, 128], byteOffset = 0, byteLength = 4\<rparr> 4 = Inr (- 2147483648)
   \<and> littleEndian [0, 0, 0, 128] = 2147483648"
  by (simp add: parseInt8_def parseInt8_loop.simps getUint8_def viewByte_def brevSection_def eval_defs)

section \<open>The beat grid\<close>

lemma parseSeratoBeatGrid_loop_shape:
  "parseSeratoBeatGrid_loop view numMarkers i = Inr ms \<Longrightarrow>
     (if i < numMarkers
      then \<exists>front final. ms = front @ [final] \<and> length front = numMarkers - i - 1
             \<and> (\<forall>m\<in>set front. marker_bpm m = None \<and> beatsTillNextMarker m \<noteq> None)
             \<and> marker_bpm final \<noteq> None \<and> beatsTillNextMarker final = None
      else ms = [])"
proof (induction view numMarkers i arbitrary: ms rule: parseSeratoBeatGrid_loop.induct)
  case (1 view numMarkers i)
  show ?case
  proof (cases "i < numMarkers")
    case False
    with "1.prems" show ?thesis
      by (subst (asm) parseSeratoBeatGrid_loop.simps) simp
  next
    case True
    define M where "M = (\<lambda>pos.
               (if i < numMarkers - 1
                then (case getUint32 view (6 + i * 8 + 4) of Inl e \<Rightarrow> Inl e
                      | Inr beats \<Rightarrow>
                          Inr \<lparr>marker_position = pos, marker_bpm = None,
                               beatsTillNextMarker = Some beats\<rparr>)
                else (case getFloat32 view (6 + i * 8 + 4) of Inl e \<Rightarrow> Inl e
                      | Inr bpm \<Rightarrow>
                          Inr \<lparr>marker_position = pos, marker_bpm = Some bpm,
                               beatsTillNextMarker = None\<rparr>)))"
    have unfolded:
      "(case getFloat32 view (6 + i * 8) of Inl e \<Rightarrow> Inl e
         | Inr pos \<Rightarrow>
            (case M pos of Inl e \<Rightarrow> Inl e
             | Inr m \<Rightarrow>
                (case parseSeratoBeatGrid_loop view numMarkers (i + 1) of Inl e \<Rightarrow> Inl e
                 | Inr ms \<Rightarrow> Inr (m # ms)))) = Inr ms"
      using "1.prems" True unfolding M_def
      by (subst (asm) parseSeratoBeatGrid_loop.simps) simp
    then obtain pos where pos: "getFloat32 view (6 + i * 8) = Inr pos"
      by (cases "getFloat32 view (6 + i * 8)") auto
    with unfolded obtain m where m': "M pos = Inr m"
      by (cases "M pos") auto
    with unfolded pos obtain rest
      where rest: "parseSeratoBeatGrid_loop view numMarkers (i + 1) = Inr rest"
        and ms: "ms = m # rest"
      by (cases "parseSeratoBeatGrid_loop view numMarkers (i + 1)") auto
    note m = m' [unfolded M_def]
    note IH = "1.IH" [OF True pos m rest]
    show ?thesis
    proof (cases "i < numMarkers - 1")
      case inner: True
      then have "i + 1 < numMarkers" by simp
      with IH obtain front final where
        "rest = front @ [final]" "length front = numMarkers - (i + 1) - 1"
        "\<forall>x\<in>set front. marker_bpm x = None \<and> beatsTillNextMarker x \<noteq> None"
        "marker_bpm final \<noteq> None" "beatsTillNextMarker final = None"
        by auto
      moreover from m inner have "marker_bpm m = None \<and> beatsTillNextMarker m \<noteq> None"
        by (auto split: sum.splits)
      ultimately have "ms = (m # front) @ [final] \<and> length (m # front) = numMarkers - i - 1
             \<and> (\<forall>x\<in>set (m # front). marker_bpm x = None \<and> beatsTillNextMarker x \<noteq> None)
             \<and> marker_bpm final \<noteq> None \<and> beatsTillNextMarker final = None"
        using ms inner by auto
      with True show ?thesis by (intro iffD2 [OF if_P] exI) auto
    next
      case last: False
      with True have "\<not> i + 1 < numMarkers" by simp
      with IH have "rest = []" by simp
      moreover from m last have "marker_bpm m \<noteq> None \<and> beatsTillNextMarker m = None"
        by (auto split: sum.splits)
      ultimately show ?thesis using True last ms by auto
    qed
  qed
qed

text \<open>The decoder returns whenever the view holds the header and all the records.\<close>

lemma parseSeratoBeatGrid_loop_returns:
  "6 + 8 * numMarkers \<le> byteLength view \<Longrightarrow>
     \<exists>ms. parseSeratoBeatGrid_loop view numMarkers i = Inr ms"
proof (induction "numMarkers - i" arbitrary: i)
  case 0
  then show ?case by (subst parseSeratoBeatGrid_loop.simps) simp
next
  case (Suc n)
  then have lt: "i < numMarkers" by simp
  from Suc.hyps(2) have "n = numMarkers - Suc i" by simp
  from Suc.hyps(1) [OF this Suc.prems] obtain rest where
    rest: "parseSeratoBeatGrid_loop view numMarkers (Suc i) = Inr rest" by auto
  from lt Suc.prems have inside: "6 + i * 8 + 8 \<le> byteLength view" by simp
  then show ?case
    using lt rest
    by (subst parseSeratoBeatGrid_loop.simps) (simp add: getFloat32_def getUint32_def)
qed

lemma parseSeratoBeatGrid_returns:
  assumes "getUint32 view 2 = Inr numMarkers" and "6 + 8 * numMarkers \<le> byteLength view"
  shows "\<exists>r. parseSeratoBeatGrid view = Inr r"
  using assms parseSeratoBeatGrid_loop_returns [OF assms(2), of 0]
  by (auto simp: parseSeratoBeatGrid_def)

text \<open>
  C6, as the code has it. When a payload with marker count \<open>N\<close> is decoded, the result has
  \<open>N\<close> markers; every marker but the last carries a beat count and no BPM; and when
  \<open>N\<close> is at least 1 the last marker carries a BPM and no beat count, so that exactly one
  marker carries a BPM and none carries both. When \<open>N\<close> is 0 the result has no marker.
\<close>

theorem parseSeratoBeatGrid_shape:
  assumes count: "getUint32 view 2 = Inr numMarkers"
      and decoded: "parseSeratoBeatGrid view = Inr r"
  shows "length (grid_markers r) = numMarkers
       \<and> (\<forall>m\<in>set (butlast (grid_markers r)).
             marker_bpm m = None \<and> beatsTillNextMarker m \<noteq> None)
       \<and> (0 < numMarkers \<longrightarrow>
             marker_bpm (last (grid_markers r)) \<noteq> None
             \<and> beatsTillNextMarker (last (grid_markers r)) = None)"
proof -
  from count decoded have loop: "parseSeratoBeatGrid_loop view numMarkers 0 = Inr (grid_markers r)"
    by (auto simp: parseSeratoBeatGrid_def split: sum.splits)
  show ?thesis
    using parseSeratoBeatGrid_loop_shape [OF loop]
    by (cases "0 < numMarkers") auto
qed

lemma exampleBeatGrid_decoded:
  "parseSeratoBeatGrid \<lparr>buffer = exampleBeatGrid, byteOffset = 0, byteLength = 30\<rparr> =
     Inr \<lparr>grid_markers =
       [\<lparr>marker_position = Float32 0x3DCCCCCD, marker_bpm = None, beatsTillNextMarker = Some 64\<rparr>,
        \<lparr>marker_position = Float32 0x41F00000, marker_bpm = None, beatsTillNextMarker = Some 32\<rparr>,
        \<lparr>marker_position = Float32 0x42700000, marker_bpm = Some (Float32 0x42F80000),
         beatsTillNextMarker = None\<rparr>]\<rparr>"
  by (simp add: parseSeratoBeatGrid_def parseSeratoBeatGrid_loop.simps getUint32_def
        getFloat32_def viewByte_def exampleBeatGrid_def)

text \<open>Witness for C6: the example grid of three markers.\<close>

theorem parseSeratoBeatGrid_shape_witness:
  "getUint32 \<lparr>buffer = exampleBeatGrid, byteOffset = 0, byteLength = 30\<rparr> 2 = Inr 3
   \<and> (\<exists>r. parseSeratoBeatGrid \<lparr>buffer = exampleBeatGrid, byteOffset = 0, byteLength = 30\<rparr> = Inr r
        \<and> length (grid_markers r) = 3
        \<and> map marker_bpm (grid_markers r) = [None, None, Some (Float32 0x42F80000)]
        \<and> map beatsTillNextMarker (grid_markers r) = [Some 64, Some 32, None])"
  using parseSeratoBeatGrid_shape [OF _ exampleBeatGrid_decoded, of 3]
  by (simp add: exampleBeatGrid_decoded) (simp add: getUint32_def viewByte_def exampleBeatGrid_def)

text \<open>
  Counterexample to C6 as stated: a payload whose marker count is 0 is decoded to a grid
  without markers, so no marker, and not exactly one, carries a BPM.
\<close>

theorem parseSeratoBeatGrid_empty_counterexample:
  "getUint32 \<lparr>buffer = [1, 0, 0, 0, 0, 0], byteOffset = 0, byteLength = 6\<rparr> 2 = Inr 0
   \<and> parseSeratoBeatGrid \<lparr>buffer = [1, 0, 0, 0, 0, 0], byteOffset = 0, byteLength = 6\<rparr>
       = Inr \<lparr>grid_markers = []\<rparr>"
  by (simp add: parseSeratoBeatGrid_def parseSeratoBeatGrid_loop.simps getUint32_def viewByte_def)

section \<open>Markers2 elements\<close>

lemma viewBytes_length: "insideBuffer v \<Longrightarrow> length (viewBytes v) = byteLength v"
  by (simp add: viewBytes_def insideBuffer_def)

lemma viewBytes_nth:
  "insideBuffer v \<Longrightarrow> i < byteLength v \<Longrightarrow> viewBytes v ! i = buffer v ! (byteOffset v + i)"
  by (simp add: viewBytes_def insideBuffer_def)

lemma getUint8_viewBytes:
  "insideBuffer v \<Longrightarrow> i < byteLength v \<Longrightarrow> getUint8 v i = Inr (unat (viewBytes v ! i))"
  by (simp add: getUint8_def viewByte_def viewBytes_nth)

lemma take4_drop:
  assumes "i + 4 \<le> length xs"
  shows "take 4 (drop i xs) = [xs ! i, xs ! (i + 1), xs ! (i + 2), xs ! (i + 3)]"
proof -
  have "length (take 4 (drop i xs)) = 4" using assms by simp
  moreover have "\<And>k. k < 4 \<Longrightarrow> take 4 (drop i xs) ! k = xs ! (i + k)"
    using assms by simp
  ultimately show ?thesis
    by (intro nth_equalityI) (auto simp: nth_Cons' numeral_eq_Suc less_Suc_eq)
qed

lemma getUint32_viewBytes:
  assumes "insideBuffer v" and "i + 4 \<le> byteLength v"
  shows "getUint32 v i = Inr (bigEndian (take 4 (drop i (viewBytes v))))"
proof -
  have "i + 4 \<le> length (viewBytes v)" using assms by (simp add: viewBytes_length)
  from take4_drop [OF this] assms show ?thesis
    by (simp add: getUint32_def viewByte_def viewBytes_nth)
qed

lemma readNullTerminatedString_length_scan:
  assumes "insideBuffer v"
  shows "drop (offset + len) (viewBytes v) = xs \<Longrightarrow> 0 \<in> set xs \<Longrightarrow>
         readNullTerminatedString_length v offset len = Inr (len + length (cString xs))"
proof (induction xs arbitrary: len)
  case Nil
  then show ?case by simp
next
  case (Cons x xs)
  from Cons.prems(1) have lt: "offset + len < length (viewBytes v)"
    by (metis drop_eq_Nil list.distinct(1) not_le)
  then have ltv: "offset + len < byteLength v"
    using assms by (simp add: viewBytes_length)
  from Cons.prems(1) lt have x: "viewBytes v ! (offset + len) = x"
    by (metis Cons_nth_drop_Suc list.inject)
  from Cons.prems(1) lt have rest: "drop (offset + (len + 1)) (viewBytes v) = xs"
    by (metis Cons_nth_drop_Suc add.assoc add.commute list.inject plus_1_eq_Suc)
  have byte: "getUint8 v (offset + len) = Inr (unat x)"
    using getUint8_viewBytes [OF assms ltv] x by simp
  show ?case
  proof (cases "x = 0")
    case True
    with byte show ?thesis
      by (subst readNullTerminatedString_length.simps) (simp add: cString_def)
  next
    case False
    with Cons.prems(2) have "0 \<in> set xs" by auto
    from Cons.IH [OF rest this] False byte ltv show ?thesis
      by (subst readNullTerminatedString_length.simps) (simp add: cString_def unat_eq_0)
  qed
qed

lemma readNullTerminatedString_cString:
  assumes inside: "insideBuffer v" and nul: "0 \<in> set (drop offset (viewBytes v))"
  shows "readNullTerminatedString textDecode v offset
           = Inr (textDecode (cString (drop offset (viewBytes v))))"
proof -
  let ?xs = "drop offset (viewBytes v)"
  have len: "readNullTerminatedString_length v offset 0 = Inr (length (cString ?xs))"
    using readNullTerminatedString_length_scan [OF inside, of offset 0 ?xs] nul by simp
  have le: "length (cString ?xs) \<le> byteLength v - offset"
    using length_takeWhile_le [of "\<lambda>b. b \<noteq> 0" ?xs] inside
    by (simp add: cString_def viewBytes_length)
  have "?xs = take (byteLength v - offset) (drop (byteOffset v + offset) (buffer v))"
    by (simp add: viewBytes_def drop_take add.commute)
  then have "take (length (cString ?xs)) ?xs
               = take (length (cString ?xs)) (drop (byteOffset v + offset) (buffer v))"
    using le by (simp add: min_def)
  moreover have "cString ?xs = take (length (cString ?xs)) ?xs"
    unfolding cString_def by (rule takeWhile_eq_take)
  ultimately have "slice (buffer v) (byteOffset v + offset)
                     (byteOffset v + offset + length (cString ?xs)) = cString ?xs"
    by (simp add: slice_def)
  with len show ?thesis
    by (simp add: readNullTerminatedString_def)
qed

lemma applyElement_COLOR:
  assumes "insideBuffer (element_data el)" and "element_name el = js ''COLOR''"
      and "4 \<le> byteLength (element_data el)"
  shows "applyElement textDecode r el
           = Inr (r\<lparr>m_color := Some (colorOf (viewBytes (element_data el)))\<rparr>)"
  using assms
  by (simp add: applyElement_def Let_def getUint8_viewBytes colorOf_def)

lemma nul_after_12:
  assumes "insideBuffer v" and "0 \<in> set (drop 12 (viewBytes v))"
  shows "12 < byteLength v"
proof -
  from assms(2) have "drop 12 (viewBytes v) \<noteq> []" by auto
  then have "12 < length (viewBytes v)" by simp
  with assms(1) show ?thesis by (simp add: viewBytes_length)
qed

lemma js_names_distinct:
  "js ''CUE'' \<noteq> js ''COLOR''" "js ''LOOP'' \<noteq> js ''COLOR''" "js ''LOOP'' \<noteq> js ''CUE''"
  "js ''BPMLOCK'' \<noteq> js ''COLOR''" "js ''BPMLOCK'' \<noteq> js ''CUE''" "js ''BPMLOCK'' \<noteq> js ''LOOP''"
  by (simp_all add: js_def)

lemma applyElement_CUE:
  assumes inside: "insideBuffer (element_data el)" and name: "element_name el = js ''CUE''"
      and nul: "0 \<in> set (drop 12 (viewBytes (element_data el)))"
  shows "applyElement textDecode r el
           = Inr (r\<lparr>m_cuePoints := m_cuePoints r @ [cueOf textDecode (viewBytes (element_data el))]\<rparr>)"
proof -
  have len: "12 < byteLength (element_data el)"
    using nul_after_12 [OF inside nul] .
  have b1: "getUint8 (element_data el) 1 = Inr (unat (viewBytes (element_data el) ! 1))"
    and b7: "getUint8 (element_data el) 7 = Inr (unat (viewBytes (element_data el) ! 7))"
    and b8: "getUint8 (element_data el) 8 = Inr (unat (viewBytes (element_data el) ! 8))"
    and b9: "getUint8 (element_data el) 9 = Inr (unat (viewBytes (element_data el) ! 9))"
    using len by (simp_all add: getUint8_viewBytes [OF inside])
  have pos: "getUint32 (element_data el) 2
               = Inr (bigEndian (take 4 (drop 2 (viewBytes (element_data el)))))"
    using len by (intro getUint32_viewBytes [OF inside]) simp
  show ?thesis
    using name b1 b7 b8 b9 pos readNullTerminatedString_cString [OF inside nul, of textDecode]
    by (simp add: applyElement_def Let_def cueOf_def js_names_distinct)
qed

lemma applyElement_unknown:
  "\<not> knownElement el \<Longrightarrow> applyElement textDecode r el = Inr r"
  by (simp add: applyElement_def Let_def knownElement_def)

lemma applyElements_filter_known:
  "applyElements textDecode r els = applyElements textDecode r (filter knownElement els)"
proof (induction els arbitrary: r)
  case Nil
  show ?case by simp
next
  case (Cons el els)
  show ?case
  proof (cases "knownElement el")
    case True
    with Cons.IH show ?thesis by (simp split: sum.splits)
  next
    case False
    with Cons.IH [of r] show ?thesis by (simp add: applyElement_unknown)
  qed
qed

lemma parseElements_inside:
  "parseElements textDecode payload offset = Inr els \<Longrightarrow>
     \<forall>el\<in>set els. insideBuffer (element_data el) \<and> buffer (element_data el) = payload"
proof (induction textDecode payload offset arbitrary: els rule: parseElements.induct)
  case (1 textDecode payload offset)
  let ?view = "\<lparr>buffer = payload, byteOffset = 0, byteLength = length payload\<rparr>"
  show ?case
  proof (cases "offset < length payload")
    case False
    with "1.prems" show ?thesis
      by (subst (asm) parseElements.simps) simp
  next
    case True
    have unfolded:
      "(case readNullTerminatedString textDecode ?view offset of
           Inl e \<Rightarrow> Inl e
         | Inr name \<Rightarrow>
            if name = [] then Inr []
            else
              (case getUint32 ?view (offset + length name + 1) of
                 Inl e \<Rightarrow> Inl e
               | Inr len \<Rightarrow>
                  (case newDataView payload (offset + length name + 5) (Some len) of
                     Inl e \<Rightarrow> Inl e
                   | Inr data \<Rightarrow>
                      (case parseElements textDecode payload (offset + length name + 5 + len) of
                         Inl e \<Rightarrow> Inl e
                       | Inr elements \<Rightarrow>
                          Inr (\<lparr>element_name = name, element_data = data\<rparr> # elements))))) = Inr els"
      using "1.prems" True
      by (subst (asm) parseElements.simps) simp
    then obtain name where name: "readNullTerminatedString textDecode ?view offset = Inr name"
      by (cases "readNullTerminatedString textDecode ?view offset") auto
    show ?thesis
    proof (cases "name = []")
      case True
      with unfolded name show ?thesis by simp
    next
      case False
      with unfolded name obtain len where len: "getUint32 ?view (offset + length name + 1) = Inr len"
        by (cases "getUint32 ?view (offset + length name + 1)") auto
      with unfolded name False obtain data where
        data: "newDataView payload (offset + length name + 5) (Some len) = Inr data"
        by (cases "newDataView payload (offset + length name + 5) (Some len)") auto
      with unfolded name False len obtain rest where
        rest: "parseElements textDecode payload (offset + length name + 5 + len) = Inr rest"
        and els: "els = \<lparr>element_name = name, element_data = data\<rparr> # rest"
        by (cases "parseElements textDecode payload (offset + length name + 5 + len)") auto
      have "\<forall>el\<in>set rest. insideBuffer (element_data el) \<and> buffer (element_data el) = payload"
        using "1.IH" [OF True name False len data rest] .
      moreover from data have "insideBuffer data \<and> buffer data = payload"
        by (auto simp: newDataView_def insideBuffer_def split: if_splits)
      ultimately show ?thesis using els by simp
    qed
  qed
qed

text \<open>
  The framing loop. On a payload that holds, from the offset \<open>length pre\<close> on, the bytes of
  a list of elements whose names can be framed, followed by nothing or by a zero byte, the
  loop returns these elements, each with a view of its data.
\<close>

lemma length_be32 [simp]: "length (be32 n) = 4"
  by (simp add: be32_def)

lemma bigEndian_be32:
  assumes "n < 4294967296"
  shows "bigEndian (be32 n) = n"
proof -
  define a b c where "a = n div 256" and "b = n div 256 div 256" and "c = n div 256 div 256 div 256"
  define ra rb rn where "ra = a mod 256" and "rb = b mod 256" and "rn = n mod 256"
  have n: "n = a * 256 + rn"
    unfolding a_def rn_def by simp
  have a: "a = b * 256 + ra"
    unfolding a_def b_def ra_def by simp
  have b: "b = c * 256 + rb"
    unfolding b_def c_def rb_def by simp
  have c: "c < 256"
    using assms unfolding c_def by (simp add: div_mult2_eq [symmetric] less_mult_imp_div_less)
  have "n div 65536 = b" and "n div 16777216 = c"
    unfolding b_def c_def by (simp_all add: div_mult2_eq [symmetric])
  then have "bigEndian (be32 n) = c mod 256 * 16777216 + rb * 65536 + ra * 256 + rn"
    by (simp add: be32_def unat_of_nat a_def [symmetric] ra_def rb_def rn_def)
  also have "\<dots> = n"
    using n a b c by simp
  finally show ?thesis .
qed

lemma drop_prefix: "xs = p @ ys \<Longrightarrow> length p = k \<Longrightarrow> drop k xs = ys"
  by simp

lemma fullView:
  "insideBuffer \<lparr>buffer = p, byteOffset = 0, byteLength = length p\<rparr>"
  "viewBytes \<lparr>buffer = p, byteOffset = 0, byteLength = length p\<rparr> = p"
  by (simp_all add: insideBuffer_def viewBytes_def)

lemma cString_name: "0 \<notin> set name \<Longrightarrow> cString (name @ 0 # xs) = name"
  unfolding cString_def by (induction name) auto

lemma parseElements_framed:
  assumes ending: "rest \<noteq> [] \<longrightarrow> hd rest = 0 \<and> textDecode [] = []"
  shows "payload = pre @ concat (map elementBytes items) @ rest
     \<Longrightarrow> \<forall>it\<in>set items. wellFramed textDecode it
     \<Longrightarrow> parseElements textDecode payload (length pre)
           = Inr (framed textDecode payload (length pre) items)"
proof (induction items arbitrary: pre)
  case Nil
  let ?view = "\<lparr>buffer = payload, byteOffset = 0, byteLength = length payload\<rparr>"
  show ?case
  proof (cases "rest = []")
    case True
    with Nil show ?thesis
      by (subst parseElements.simps) simp
  next
    case False
    with ending obtain r where rest: "rest = 0 # r" and empty: "textDecode [] = []"
      by (cases rest) auto
    have "viewBytes ?view = payload" by (rule fullView(2))
    then have dropped: "drop (length pre) (viewBytes ?view) = 0 # r"
      using Nil(1) rest by simp
    have "readNullTerminatedString textDecode ?view (length pre)
            = Inr (textDecode (cString (drop (length pre) (viewBytes ?view))))"
      by (rule readNullTerminatedString_cString [OF fullView(1)]) (simp add: dropped)
    with dropped empty have "readNullTerminatedString textDecode ?view (length pre) = Inr []"
      by (simp add: cString_def)
    then show ?thesis
      by (subst parseElements.simps) simp
  qed
next
  case (Cons it items)
  let ?view = "\<lparr>buffer = payload, byteOffset = 0, byteLength = length payload\<rparr>"
  let ?name = "fst it" and ?data = "snd it"
  let ?tail = "concat (map elementBytes items) @ rest"
  from Cons.prems(2) have wf: "wellFramed textDecode it"
    and wfs: "\<forall>it\<in>set items. wellFramed textDecode it" by simp_all
  from wf have nonempty: "?name \<noteq> []" and nonul: "0 \<notin> set ?name"
    and same: "length (textDecode ?name) = length ?name" and small: "length ?data < 4294967296"
    by (simp_all add: wellFramed_def)
  have payload: "payload = pre @ ?name @ 0 # be32 (length ?data) @ ?data @ ?tail"
    using Cons.prems(1) by (simp add: elementBytes_def [of it])
  have more: "length pre < length payload"
    by (simp add: payload)
  have vb: "viewBytes ?view = payload" by (rule fullView(2))
  have dropped: "drop (length pre) (viewBytes ?view) = ?name @ 0 # be32 (length ?data) @ ?data @ ?tail"
    unfolding vb by (simp add: payload)
  have "readNullTerminatedString textDecode ?view (length pre)
          = Inr (textDecode (cString (drop (length pre) (viewBytes ?view))))"
    by (rule readNullTerminatedString_cString [OF fullView(1)]) (simp add: dropped)
  then have name: "readNullTerminatedString textDecode ?view (length pre) = Inr (textDecode ?name)"
    using cString_name [OF nonul] by (simp add: dropped)
  have decoded: "textDecode ?name \<noteq> []"
    using same nonempty by auto
  have "payload = (pre @ ?name @ [0]) @ be32 (length ?data) @ ?data @ ?tail"
    by (simp add: payload)
  then have "drop (length pre + length ?name + 1) payload = be32 (length ?data) @ ?data @ ?tail"
    by (rule drop_prefix) simp
  then have field: "take 4 (drop (length pre + length ?name + 1) (viewBytes ?view)) = be32 (length ?data)"
    unfolding vb by simp
  have "getUint32 ?view (length pre + length ?name + 1)
          = Inr (bigEndian (take 4 (drop (length pre + length ?name + 1) (viewBytes ?view))))"
    by (rule getUint32_viewBytes [OF fullView(1)]) (simp add: payload)
  then have len: "getUint32 ?view (length pre + length (textDecode ?name) + 1) = Inr (length ?data)"
    using field bigEndian_be32 [OF small] by (simp add: same)
  have view: "newDataView payload (length pre + length (textDecode ?name) + 5) (Some (length ?data))
          = Inr \<lparr>buffer = payload, byteOffset = length pre + length ?name + 5,
                 byteLength = length ?data\<rparr>"
    by (simp add: newDataView_def same payload)
  have "payload = (pre @ elementBytes it) @ concat (map elementBytes items) @ rest"
    using Cons.prems(1) by simp
  from Cons.IH [OF this wfs]
  have rest: "parseElements textDecode payload (length pre + length (textDecode ?name) + 5 + length ?data)
          = Inr (framed textDecode payload (length pre + length ?name + 5 + length ?data) items)"
    by (simp add: elementBytes_def same add.assoc)
  show ?case
    using more name decoded len view rest
    by (subst parseElements.simps) simp
qed

lemma framed_items:
  "payload = pre @ concat (map elementBytes items) @ rest
     \<Longrightarrow> map (\<lambda>el. (element_name el, viewBytes (element_data el)))
             (framed textDecode payload (length pre) items)
         = map (\<lambda>it. (textDecode (fst it), snd it)) items"
proof (induction items arbitrary: pre)
  case Nil
  show ?case by simp
next
  case (Cons it items)
  let ?name = "fst it" and ?data = "snd it"
  have "payload = (pre @ ?name @ 0 # be32 (length ?data)) @ ?data @ concat (map elementBytes items) @ rest"
    using Cons.prems by (simp add: elementBytes_def [of it])
  then have "drop (length pre + length ?name + 5) payload
               = ?data @ concat (map elementBytes items) @ rest"
    by (rule drop_prefix) simp
  then have bytes: "viewBytes \<lparr>buffer = payload, byteOffset = length pre + length ?name + 5,
                       byteLength = length ?data\<rparr> = ?data"
    by (simp add: viewBytes_def)
  have "payload = (pre @ elementBytes it) @ concat (map elementBytes items) @ rest"
    using Cons.prems by simp
  from Cons.IH [OF this] bytes show ?case
    by (simp add: elementBytes_def add.assoc)
qed

lemma applyElements_simple:
  "\<forall>el\<in>set els. insideBuffer (element_data el)
                    \<and> simpleEntry (element_name el, viewBytes (element_data el))
   \<Longrightarrow> applyElements textDecode r els
         = Inr (r\<lparr>m_color :=
                    (let cs = colorsOf (map (\<lambda>el. (element_name el, viewBytes (element_data el))) els)
                     in if cs = [] then m_color r else Some (last cs)),
                  m_cuePoints := m_cuePoints r
                    @ cuesOf textDecode (map (\<lambda>el. (element_name el, viewBytes (element_data el))) els)\<rparr>)"
proof (induction els arbitrary: r)
  case Nil
  show ?case by (simp add: colorsOf_def cuesOf_def)
next
  case (Cons el els)
  from Cons.prems have inside: "insideBuffer (element_data el)"
    and simple: "simpleEntry (element_name el, viewBytes (element_data el))"
    and rest: "\<forall>el\<in>set els. insideBuffer (element_data el)
                    \<and> simpleEntry (element_name el, viewBytes (element_data el))"
    by simp_all
  note IH = Cons.IH [OF rest]
  have len: "length (viewBytes (element_data el)) = byteLength (element_data el)"
    using inside by (rule viewBytes_length)
  show ?case
  proof (cases "element_name el = js ''COLOR''")
    case True
    with simple len have "4 \<le> byteLength (element_data el)"
      by (simp add: simpleEntry_def)
    from applyElement_COLOR [OF inside True this, of textDecode r]
    show ?thesis
      using True IH [of "r\<lparr>m_color := Some (colorOf (viewBytes (element_data el)))\<rparr>"]
      by (simp add: colorsOf_def cuesOf_def Let_def js_names_distinct js_names_distinct [symmetric])
  next
    case notcolor: False
    show ?thesis
    proof (cases "element_name el = js ''CUE''")
      case True
      with simple have "0 \<in> set (drop 12 (viewBytes (element_data el)))"
        by (simp add: simpleEntry_def)
      from applyElement_CUE [OF inside True this, of textDecode r]
      show ?thesis
        using True notcolor
          IH [of "r\<lparr>m_cuePoints := m_cuePoints r @ [cueOf textDecode (viewBytes (element_data el))]\<rparr>"]
        by (simp add: colorsOf_def cuesOf_def Let_def)
    next
      case False
      with notcolor simple have "\<not> knownElement el"
        by (simp add: knownElement_def simpleEntry_def)
      from applyElement_unknown [OF this, of textDecode r]
      show ?thesis
        using False notcolor IH [of r]
        by (simp add: colorsOf_def cuesOf_def Let_def)
    qed
  qed
qed

lemma applyElements_markersOf:
  assumes "\<forall>el\<in>set els. insideBuffer (element_data el)"
      and "map (\<lambda>el. (element_name el, viewBytes (element_data el))) els = ens"
      and "\<forall>en\<in>set ens. simpleEntry en"
  shows "applyElements textDecode emptyMarkers els = Inr (markersOf textDecode ens)"
proof -
  from assms(2,3) have "\<forall>el\<in>set els. simpleEntry (element_name el, viewBytes (element_data el))"
    by auto
  with assms(1) have "\<forall>el\<in>set els. insideBuffer (element_data el)
                    \<and> simpleEntry (element_name el, viewBytes (element_data el))"
    by simp
  from applyElements_simple [OF this, of textDecode emptyMarkers] assms(2)
  show ?thesis
    by (simp add: markersOf_def emptyMarkers_def Let_def)
qed

text \<open>
  C7, as the code has it, from the entry point. Let the string in the frame be terminated
  and let its Base64 decoding be the two header bytes, the bytes of a list of elements
  whose names can be framed, and then nothing or a zero byte. Then \<open>parseSeratorMarkers2\<close>
  returns what the elements with a known name alone give, applied in their order, so an
  element with another name raises no error and changes nothing; the elements are those
  of the list, by name and data; a \<open>COLOR\<close> element of at least four bytes sets the colour
  to its first four bytes; a \<open>CUE\<close> element whose name is terminated appends the cue point
  with the index of byte 1, the big-endian position of bytes 2 to 5, the colour of bytes 7
  to 9 and the name that starts at byte 12. When the list holds no \<open>LOOP\<close> and no
  \<open>BPMLOCK\<close> element, every \<open>COLOR\<close> element has its four bytes and every \<open>CUE\<close> name is
  terminated, the result is the colour of the last \<open>COLOR\<close> element and the cue points of
  the \<open>CUE\<close> elements in their order, whatever the other elements are.
\<close>

theorem parseSeratorMarkers2_elements:
  assumes inside: "insideBuffer view"
      and terminated: "0 \<in> set (viewBytes view)"
      and decoded: "base64 (textDecode (cString (viewBytes view))) = payload"
      and layout: "payload = [1, 1] @ concat (map elementBytes items) @ rest"
      and names: "\<forall>it\<in>set items. wellFramed textDecode it"
      and ending: "rest \<noteq> [] \<longrightarrow> hd rest = 0 \<and> textDecode [] = []"
  shows "parseSeratorMarkers2 base64 textDecode view
           = applyElements textDecode emptyMarkers
               (filter knownElement (framed textDecode payload 2 items))
       \<and> map (\<lambda>el. (element_name el, viewBytes (element_data el)))
              (framed textDecode payload 2 items)
           = map (\<lambda>it. (textDecode (fst it), snd it)) items
       \<and> (\<forall>el\<in>set (framed textDecode payload 2 items). \<forall>r.
            (element_name el = js ''COLOR'' \<and> 4 \<le> byteLength (element_data el) \<longrightarrow>
               applyElement textDecode r el
                 = Inr (r\<lparr>m_color := Some (colorOf (viewBytes (element_data el)))\<rparr>))
          \<and> (element_name el = js ''CUE'' \<and> 0 \<in> set (drop 12 (viewBytes (element_data el))) \<longrightarrow>
               applyElement textDecode r el
                 = Inr (r\<lparr>m_cuePoints := m_cuePoints r
                              @ [cueOf textDecode (viewBytes (element_data el))]\<rparr>))
          \<and> (\<not> knownElement el \<longrightarrow> applyElement textDecode r el = Inr r))
       \<and> ((\<forall>it\<in>set items. simpleEntry (textDecode (fst it), snd it)) \<longrightarrow>
            parseSeratorMarkers2 base64 textDecode view
              = Inr (markersOf textDecode (map (\<lambda>it. (textDecode (fst it), snd it)) items)))"
proof -
  let ?els = "framed textDecode payload 2 items"
  have "readNullTerminatedString textDecode view 0
          = Inr (textDecode (cString (drop 0 (viewBytes view))))"
    by (rule readNullTerminatedString_cString [OF inside]) (simp add: terminated)
  then have entry: "parseSeratorMarkers2 base64 textDecode view
                      = parseMarkers2Payload textDecode payload"
    using decoded by (simp add: parseSeratorMarkers2_def)
  have magic: "payloadAt payload 0 = Some 1 \<and> payloadAt payload 1 = Some 1"
    by (simp add: layout payloadAt_def)
  have two: "length [1::byte, 1] = 2"
    by simp
  have framing: "parseElements textDecode payload 2 = Inr ?els"
    using parseElements_framed [OF ending layout names] unfolding two .
  have items: "map (\<lambda>el. (element_name el, viewBytes (element_data el))) ?els
                 = map (\<lambda>it. (textDecode (fst it), snd it)) items"
    using framed_items [OF layout, of textDecode] unfolding two .
  have applied: "parseMarkers2Payload textDecode payload
                    = applyElements textDecode emptyMarkers ?els"
    using magic framing by (simp add: parseMarkers2Payload_def)
  with entry have first: "parseSeratorMarkers2 base64 textDecode view
           = applyElements textDecode emptyMarkers (filter knownElement ?els)"
    using applyElements_filter_known [of textDecode emptyMarkers ?els] by simp
  have inside: "\<forall>el\<in>set ?els. insideBuffer (element_data el)"
    using parseElements_inside [OF framing] by simp
  have each: "\<forall>el\<in>set ?els. \<forall>r.
            (element_name el = js ''COLOR'' \<and> 4 \<le> byteLength (element_data el) \<longrightarrow>
               applyElement textDecode r el
                 = Inr (r\<lparr>m_color := Some (colorOf (viewBytes (element_data el)))\<rparr>))
          \<and> (element_name el = js ''CUE'' \<and> 0 \<in> set (drop 12 (viewBytes (element_data el))) \<longrightarrow>
               applyElement textDecode r el
                 = Inr (r\<lparr>m_cuePoints := m_cuePoints r
                              @ [cueOf textDecode (viewBytes (element_data el))]\<rparr>))
          \<and> (\<not> knownElement el \<longrightarrow> applyElement textDecode r el = Inr r)"
    using inside applyElement_COLOR applyElement_CUE applyElement_unknown by blast
  have simple: "(\<forall>it\<in>set items. simpleEntry (textDecode (fst it), snd it)) \<longrightarrow>
            parseSeratorMarkers2 base64 textDecode view
              = Inr (markersOf textDecode (map (\<lambda>it. (textDecode (fst it), snd it)) items))"
  proof
    assume "\<forall>it\<in>set items. simpleEntry (textDecode (fst it), snd it)"
    then have "\<forall>en\<in>set (map (\<lambda>it. (textDecode (fst it), snd it)) items). simpleEntry en"
      by simp
    from applyElements_markersOf [OF inside items this, of textDecode] entry applied
    show "parseSeratorMarkers2 base64 textDecode view
              = Inr (markersOf textDecode (map (\<lambda>it. (textDecode (fst it), snd it)) items))"
      by simp
  qed
  from first items each simple show ?thesis by blast
qed

lemmas markers_eval = parseElements.simps readNullTerminatedString_def
  readNullTerminatedString_length.simps slice_def asciiDecode_def getUint8_def getUint32_def
  newDataView_def viewByte_def ascii_def js_def

lemma exampleMarkers2_layout:
  "exampleMarkers2 = [1, 1] @ concat (map elementBytes exampleItems) @ [0]"
  by (simp add: exampleMarkers2_def exampleItems_def elementBytes_def be32_def ascii_def)

lemma exampleItems_wellFramed: "\<forall>it\<in>set exampleItems. wellFramed asciiDecode it"
  by (simp add: exampleItems_def wellFramed_def asciiDecode_def ascii_def)

lemma exampleFrame_decoded:
  "exampleBase64 (asciiDecode (cString (viewBytes
      (frameOf ''AQFDT0xPUgAAAAAE/wD/gFhZWlpZAAAAAAKqu0NVRQAAAAASAAIAAAXcAAoUHgAASW50cm8AAA==''))))
    = exampleMarkers2"
  by (simp add: frameOf_def viewBytes_def cString_def asciiDecode_def ascii_def js_def
        exampleBase64_def)

text \<open>Witness for C7: the frame that holds the example payload.\<close>

theorem parseSeratorMarkers2_elements_witness:
  "parseSeratorMarkers2 exampleBase64 asciiDecode
     (frameOf ''AQFDT0xPUgAAAAAE/wD/gFhZWlpZAAAAAAKqu0NVRQAAAAASAAIAAAXcAAoUHgAASW50cm8AAA=='')
     = Inr \<lparr>m_color = Some (255, 0, 255, 128),
            m_cuePoints = [\<lparr>cue_index = 2, positionMs = 1500, cue_color = (10, 20, 30),
                            cue_name = js ''Intro''\<rparr>],
            m_loopEntries = [],
            m_bpmLock = Some False\<rparr>
   \<and> framed asciiDecode exampleMarkers2 2 exampleItems
       = [\<lparr>element_name = js ''COLOR'',
           element_data = \<lparr>buffer = exampleMarkers2, byteOffset = 12, byteLength = 4\<rparr>\<rparr>,
          \<lparr>element_name = js ''XYZZY'',
           element_data = \<lparr>buffer = exampleMarkers2, byteOffset = 26, byteLength = 2\<rparr>\<rparr>,
          \<lparr>element_name = js ''CUE'',
           element_data = \<lparr>buffer = exampleMarkers2, byteOffset = 36, byteLength = 18\<rparr>\<rparr>]
   \<and> applyElement asciiDecode emptyMarkers
        \<lparr>element_name = js ''XYZZY'',
         element_data = \<lparr>buffer = exampleMarkers2, byteOffset = 26, byteLength = 2\<rparr>\<rparr>
       = Inr emptyMarkers"
proof -
  let ?frame = "frameOf ''AQFDT0xPUgAAAAAE/wD/gFhZWlpZAAAAAAKqu0NVRQAAAAASAAIAAAXcAAoUHgAASW50cm8AAA==''"
  have inside: "insideBuffer ?frame"
    by (simp add: frameOf_def insideBuffer_def ascii_def)
  have terminated: "0 \<in> set (viewBytes ?frame)"
    by (simp add: frameOf_def viewBytes_def ascii_def)
  have ending: "[0::byte] \<noteq> [] \<longrightarrow> hd [0::byte] = 0 \<and> asciiDecode [] = []"
    by (simp add: asciiDecode_def)
  have els: "framed asciiDecode exampleMarkers2 2 exampleItems
       = [\<lparr>element_name = js ''COLOR'',
           element_data = \<lparr>buffer = exampleMarkers2, byteOffset = 12, byteLength = 4\<rparr>\<rparr>,
          \<lparr>element_name = js ''XYZZY'',
           element_data = \<lparr>buffer = exampleMarkers2, byteOffset = 26, byteLength = 2\<rparr>\<rparr>,
          \<lparr>element_name = js ''CUE'',
           element_data = \<lparr>buffer = exampleMarkers2, byteOffset = 36, byteLength = 18\<rparr>\<rparr>]"
    by (simp add: exampleItems_def asciiDecode_def ascii_def js_def)
  note fact = parseSeratorMarkers2_elements [of ?frame exampleBase64 asciiDecode exampleMarkers2
                exampleItems "[0]", OF inside terminated exampleFrame_decoded
                exampleMarkers2_layout exampleItems_wellFramed ending]
  have simple: "\<forall>it\<in>set exampleItems. simpleEntry (asciiDecode (fst it), snd it)"
    by (simp add: exampleItems_def simpleEntry_def asciiDecode_def ascii_def js_def)
  from fact [THEN conjunct2, THEN conjunct2, THEN conjunct2] simple
  have "parseSeratorMarkers2 exampleBase64 asciiDecode ?frame
          = Inr (markersOf asciiDecode (map (\<lambda>it. (asciiDecode (fst it), snd it)) exampleItems))"
    by simp
  then have "parseSeratorMarkers2 exampleBase64 asciiDecode ?frame
          = Inr \<lparr>m_color = Some (255, 0, 255, 128),
            m_cuePoints = [\<lparr>cue_index = 2, positionMs = 1500, cue_color = (10, 20, 30),
                            cue_name = js ''Intro''\<rparr>],
            m_loopEntries = [],
            m_bpmLock = Some False\<rparr>"
    by (simp add: markersOf_def colorsOf_def cuesOf_def colorOf_def cueOf_def cString_def
          exampleItems_def asciiDecode_def ascii_def js_def)
  moreover have "applyElement asciiDecode emptyMarkers
        \<lparr>element_name = js ''XYZZY'',
         element_data = \<lparr>buffer = exampleMarkers2, byteOffset = 26, byteLength = 2\<rparr>\<rparr>
       = Inr emptyMarkers"
    by (simp add: applyElement_def js_def)
  ultimately show ?thesis using els by simp
qed

text \<open>
  Counterexample to C7 as stated. The loop steps over a name by \<open>name.length\<close>, the number
  of UTF-16 code units of the decoded name, not by the number of its bytes. The unknown
  element named by the bytes C3 89 decodes to one code unit, so the length is read one
  byte early, the next name starts at the last byte of the length field, which is zero,
  and the loop ends: the \<open>COLOR\<close> element after it is not seen and the colour stays unset,
  with no error. With the unknown element named \<open>XY\<close> the same payload gives the colour.
\<close>

theorem parseSeratorMarkers2_name_length_counterexample:
  "parseSeratorMarkers2 exampleBase64 utf8Decode (frameOf ''AQHDiQAAAAAAQ09MT1IAAAAABP8A/4AA'')
     = Inr emptyMarkers
   \<and> accentedMarkers2
       = [1, 1] @ concat (map elementBytes
                    [([0xC3, 0x89], []), (ascii ''COLOR'', [0xFF, 0x00, 0xFF, 0x80])]) @ [0]
   \<and> utf8Decode [0xC3, 0x89] = [0xC9]
   \<and> parseElements utf8Decode accentedMarkers2 2
       = Inr [\<lparr>element_name = [0xC9],
               element_data = \<lparr>buffer = accentedMarkers2, byteOffset = 8, byteLength = 0\<rparr>\<rparr>]
   \<and> parseSeratorMarkers2 exampleBase64 utf8Decode (frameOf ''AQFYWQAAAAAAQ09MT1IAAAAABP8A/4AA'')
     = Inr (emptyMarkers\<lparr>m_color := Some (255, 0, 255, 128)\<rparr>)
   \<and> plainMarkers2
       = [1, 1] @ concat (map elementBytes
                    [(ascii ''XY'', []), (ascii ''COLOR'', [0xFF, 0x00, 0xFF, 0x80])]) @ [0]"
  by (simp add: parseSeratorMarkers2_def parseMarkers2Payload_def payloadAt_def frameOf_def
        exampleBase64_def accentedMarkers2_def plainMarkers2_def elementBytes_def be32_def
        applyElement_def emptyMarkers_def
        parseElements.simps readNullTerminatedString_def readNullTerminatedString_length.simps
        slice_def getUint8_def getUint32_def newDataView_def viewByte_def ascii_def js_def)

section \<open>Failed payloads in the track meta-data\<close>

lemma processGeob_hasWarnings:
  "processGeob base64 textDecode (result\<lparr>hasWarnings := True\<rparr>) v
     = (processGeob base64 textDecode result v)\<lparr>hasWarnings := True\<rparr>"
  by (simp add: processGeob_def Let_def split: sum.splits option.splits)

lemma foldl_processGeob_hasWarnings:
  "foldl (processGeob base64 textDecode) (result\<lparr>hasWarnings := True\<rparr>) vs
     = (foldl (processGeob base64 textDecode) result vs)\<lparr>hasWarnings := True\<rparr>"
  by (induction vs arbitrary: result) (simp_all add: processGeob_hasWarnings)

text \<open>
  C8. When the Markers2 or BeatGrid payload of a frame fails to decode, the frame's only
  effect is the warning flag: the record is the one from before with \<open>hasWarnings\<close> set,
  and the record built from all the frames of the track is the one built from the other
  frames, before and after the failed one, with the flag set. Each track's record is built
  by its own call from its own frames, so other tracks and crates are not touched.
\<close>

theorem processGeob_failure:
  assumes octet: "geob_type v = js ''application/octet-stream''"
      and fails: "(geob_description v = js ''Serato Markers2''
                    \<and> isl (parseSeratorMarkers2 base64 textDecode (geobView v)))
                \<or> (geob_description v = js ''Serato BeatGrid''
                    \<and> isl (parseSeratoBeatGrid (geobView v)))"
  shows "processGeob base64 textDecode result v = result\<lparr>hasWarnings := True\<rparr>
       \<and> parseTrackMetaData base64 textDecode result (Some (before @ v # after))
           = (parseTrackMetaData base64 textDecode result (Some (before @ after)))
               \<lparr>hasWarnings := True\<rparr>"
proof -
  have "js ''Serato BeatGrid'' \<noteq> js ''Serato Markers2''"
    by (simp add: js_def)
  with octet fails have one: "processGeob base64 textDecode result' v = result'\<lparr>hasWarnings := True\<rparr>"
    for result' :: "'a trackMetaData"
    by (auto simp: processGeob_def geobView_def Let_def isl_def)
  then show ?thesis
    by (simp add: parseTrackMetaData_def foldl_processGeob_hasWarnings)
qed

text \<open>
  Witness for C8: a track with the truncated BeatGrid frame followed by a frame that
  decodes.
\<close>

theorem processGeob_failure_witness:
  "processGeob (\<lambda>s. []) asciiDecode exampleTrack truncatedBeatGridFrame
     = exampleTrack\<lparr>hasWarnings := True\<rparr>
   \<and> parseTrackMetaData (\<lambda>s. []) asciiDecode exampleTrack
         (Some [truncatedBeatGridFrame, exampleBeatGridFrame])
       = (parseTrackMetaData (\<lambda>s. []) asciiDecode exampleTrack (Some [exampleBeatGridFrame]))
           \<lparr>hasWarnings := True\<rparr>"
  using processGeob_failure [of truncatedBeatGridFrame "\<lambda>s. []" asciiDecode exampleTrack
          "[]" "[exampleBeatGridFrame]"]
  by (simp add: truncatedBeatGridFrame_def geobView_def parseSeratoBeatGrid_def
        parseSeratoBeatGrid_loop.simps getUint32_def getFloat32_def viewByte_def)

section \<open>The track index\<close>

lemma set_firstSeen [simp]: "set (firstSeen xs) = set xs"
  by (simp add: firstSeen_def)

lemma distinct_firstSeen [simp]: "distinct (firstSeen xs)"
  by (simp add: firstSeen_def)

lemma firstSeen_Nil [simp]: "firstSeen [] = []"
  by (simp add: firstSeen_def)

lemma firstSeen_filter: "firstSeen (filter P xs) = filter P (firstSeen xs)"
  by (simp add: firstSeen_def rev_filter remdups_filter)

lemma remdups_append_filter:
  "remdups (xs @ ys) = remdups (filter (\<lambda>x. x \<notin> set ys) xs) @ remdups ys"
  by (induction xs) auto

lemma firstSeen_append:
  "firstSeen (xs @ ys) = firstSeen xs @ firstSeen (filter (\<lambda>y. y \<notin> set xs) ys)"
  by (simp add: firstSeen_def remdups_append_filter rev_filter)

lemma firstSeen_Cons:
  "firstSeen (x # xs) = x # firstSeen (filter (\<lambda>y. y \<noteq> x) xs)"
  using firstSeen_append [of "[x]" xs] by (simp add: firstSeen_def)

lemma addSeen_Nil [simp]: "addSeen known [] = known"
  by (simp add: addSeen_def)

lemma addSeen_Cons:
  "addSeen known (x # xs) = (if x \<in> set known then addSeen known xs else addSeen (known @ [x]) xs)"
proof (cases "x \<in> set known")
  case True
  then show ?thesis by (simp add: addSeen_def)
next
  case False
  have "filter (\<lambda>y. y \<noteq> x) (filter (\<lambda>p. p \<notin> set known) xs)
          = filter (\<lambda>p. p \<notin> set (known @ [x])) xs"
    by (auto intro: filter_cong)
  with False show ?thesis by (simp add: addSeen_def firstSeen_Cons)
qed

lemma addSeen_append: "addSeen known (xs @ ys) = addSeen (addSeen known xs) ys"
  by (induction xs arbitrary: known) (simp_all add: addSeen_Cons)

lemma addSeen_empty: "addSeen [] xs = firstSeen xs"
  by (simp add: addSeen_def)

lemma indexed_None:
  "indexed st \<Longrightarrow> trackPathIndex st p = None \<longleftrightarrow> p \<notin> set (scanPaths st)"
  by (metis in_set_conv_nth indexed_def not_Some_eq)

lemma scanPaths_push [simp]:
  "scanPaths (st\<lparr>trackList := ts, trackPathIndex := m\<rparr>) = map track_path ts"
  by (simp add: scanPaths_def)

lemma indexed_push:
  assumes inv: "indexed st" and new: "trackPathIndex st (track_path track) = None"
  shows "indexed (st\<lparr>trackList := trackList st @ [track],
                    trackPathIndex := (trackPathIndex st)
                      (track_path track \<mapsto> length (trackList st @ [track]) - 1)\<rparr>)"
proof -
  from inv new have fresh: "track_path track \<notin> set (scanPaths st)"
    by (simp add: indexed_None)
  from inv have iff: "\<And>p i. trackPathIndex st p = Some i
                        \<longleftrightarrow> i < length (scanPaths st) \<and> scanPaths st ! i = p"
    by (simp add: indexed_def)
  show ?thesis
    unfolding indexed_def
  proof (intro conjI allI)
    show "distinct (scanPaths (st\<lparr>trackList := trackList st @ [track],
                    trackPathIndex := (trackPathIndex st)
                      (track_path track \<mapsto> length (trackList st @ [track]) - 1)\<rparr>))"
      using inv fresh by (simp add: indexed_def scanPaths_def)
  next
    fix p i
    let ?st = "st\<lparr>trackList := trackList st @ [track],
                    trackPathIndex := (trackPathIndex st)
                      (track_path track \<mapsto> length (trackList st @ [track]) - 1)\<rparr>"
    have paths: "map track_path (trackList st) = scanPaths st"
      by (simp add: scanPaths_def)
    show "trackPathIndex ?st p = Some i \<longleftrightarrow> i < length (scanPaths ?st) \<and> scanPaths ?st ! i = p"
    proof (cases "p = track_path track")
      case True
      have "i < length (scanPaths st) \<Longrightarrow> scanPaths st ! i \<noteq> track_path track"
        using fresh by (metis nth_mem)
      with True show ?thesis
        by (auto simp: paths nth_append) (simp_all add: scanPaths_def)
    next
      case False
      with iff [of p i] show ?thesis
        by (auto simp: paths nth_append)
    qed
  qed
qed

lemma scanTracks_paths:
  "indexed st \<Longrightarrow>
     indexed (scanTracks trackFilter ts st)
     \<and> scanPaths (scanTracks trackFilter ts st)
         = addSeen (scanPaths st) (filter (trackIncluded trackFilter) (map track_path ts))
     \<and> crateList (scanTracks trackFilter ts st) = crateList st"
proof (induction ts arbitrary: st)
  case Nil
  then show ?case by simp
next
  case (Cons track ts)
  show ?case
  proof (cases "trackIncluded trackFilter (track_path track)")
    case False
    with Cons show ?thesis by (simp add: trackIncluded_def)
  next
    case True
    show ?thesis
    proof (cases "trackPathIndex st (track_path track) = None")
      case False
      with Cons.prems have known: "track_path track \<in> set (scanPaths st)"
        by (simp add: indexed_None)
      from True False have "scanTracks trackFilter (track # ts) st = scanTracks trackFilter ts st"
        by (auto simp: trackIncluded_def)
      with Cons.IH [OF Cons.prems] True known show ?thesis
        by (simp add: addSeen_Cons)
    next
      case new: True
      let ?st = "st\<lparr>trackList := trackList st @ [track],
                    trackPathIndex := (trackPathIndex st)
                      (track_path track \<mapsto> length (trackList st @ [track]) - 1)\<rparr>"
      from Cons.prems new have fresh: "track_path track \<notin> set (scanPaths st)"
        by (simp add: indexed_None)
      have paths: "scanPaths ?st = scanPaths st @ [track_path track]"
        by (simp add: scanPaths_def)
      from True new have "scanTracks trackFilter (track # ts) st = scanTracks trackFilter ts ?st"
        by (auto simp: trackIncluded_def)
      with Cons.IH [OF indexed_push [OF Cons.prems new]] True fresh paths
      show ?thesis
        by (simp add: addSeen_Cons)
    qed
  qed
qed

lemma scanCrates_paths:
  "indexed st \<Longrightarrow>
     indexed (scanCrates trackFilter rs st)
     \<and> scanPaths (scanCrates trackFilter rs st) = addSeen (scanPaths st) (seenPaths trackFilter rs)
     \<and> crateList (scanCrates trackFilter rs st) = crateList st @ parsedCrates rs"
proof (induction rs arbitrary: st)
  case Nil
  then show ?case by (simp add: seenPaths_def)
next
  case (Cons r rs)
  show ?case
  proof (cases r)
    case (Inl err)
    have "indexed (st\<lparr>scan_errors := scan_errors st @ [err]\<rparr>)"
      using Cons.prems by (simp add: indexed_def scanPaths_def)
    from Cons.IH [OF this] Inl show ?thesis
      by (simp add: seenPaths_def scanPaths_def)
  next
    case (Inr c)
    let ?st = "scanTracks trackFilter (crate_tracks c) (st\<lparr>crateList := crateList st @ [c]\<rparr>)"
    have "indexed (st\<lparr>crateList := crateList st @ [c]\<rparr>)"
      using Cons.prems by (simp add: indexed_def scanPaths_def)
    from scanTracks_paths [OF this, of trackFilter "crate_tracks c"]
    have st: "indexed ?st"
      and paths: "scanPaths ?st
                    = addSeen (scanPaths st) (filter (trackIncluded trackFilter) (cratePaths c))"
      and crates: "crateList ?st = crateList st @ [c]"
      by (simp_all add: scanPaths_def cratePaths_def)
    from Cons.IH [OF st] Inr paths crates show ?thesis
      by (simp add: seenPaths_def addSeen_append)
  qed
qed

lemma indexed_emptyScan: "indexed emptyScan"
  by (simp add: indexed_def emptyScan_def scanPaths_def)

lemma scanAll_paths:
  "indexed (scanAll trackFilter rs)"
  "scanPaths (scanAll trackFilter rs) = firstSeen (seenPaths trackFilter rs)"
  "crateList (scanAll trackFilter rs) = parsedCrates rs"
  using scanCrates_paths [OF indexed_emptyScan, of trackFilter rs]
  by (simp_all add: scanAll_def addSeen_empty) (simp_all add: emptyScan_def scanPaths_def addSeen_empty)

lemma scanTracks_seen_again:
  "trackPathIndex st (track_path track) \<noteq> None \<Longrightarrow> scanTracks trackFilter [track] st = st"
  by auto

lemma playlistTracks_included:
  assumes "\<forall>p\<in>set (cratePaths c). index p \<noteq> None \<longleftrightarrow> P p"
  shows "playlistTracks index c = map (\<lambda>p. the (index p)) (filter P (cratePaths c))"
proof -
  have "filter (\<lambda>i. i \<noteq> None) (map (\<lambda>track. index (track_path track)) (crate_tracks c))
          = map index (filter (\<lambda>p. index p \<noteq> None) (cratePaths c))"
    by (simp add: cratePaths_def filter_map comp_def)
  also have "filter (\<lambda>p. index p \<noteq> None) (cratePaths c) = filter P (cratePaths c)"
    using assms by (intro filter_cong) auto
  finally show ?thesis
    by (simp add: playlistTracks_def comp_def)
qed

text \<open>
  C9, as the code has it. The scan indexes the paths that pass the track filter, and all
  paths when no filter is set. After the scan of any sequence of crate files,
  \<open>trackList\<close> holds each such path once, in the order of first sight; the index of a
  path is its position in that list, one number for each path and none for any other; a
  track whose path has an index leaves the lists as they are; the crates of the scan are
  the ones that parsed; and the playlist of each crate is the list of the indices of its
  tracks that pass the filter, in their order, so that two crates with the same path hold
  the same index.
\<close>

theorem scanAll_index:
  "map track_path (trackList (scanAll trackFilter rs)) = firstSeen (seenPaths trackFilter rs)
   \<and> distinct (map track_path (trackList (scanAll trackFilter rs)))
   \<and> (\<forall>p i. trackPathIndex (scanAll trackFilter rs) p = Some i
          \<longleftrightarrow> i < length (firstSeen (seenPaths trackFilter rs))
              \<and> firstSeen (seenPaths trackFilter rs) ! i = p)
   \<and> (\<forall>st track. trackPathIndex st (track_path track) \<noteq> None
          \<longrightarrow> scanTracks trackFilter [track] st = st)
   \<and> crateList (scanAll trackFilter rs) = parsedCrates rs
   \<and> (\<forall>c\<in>set (parsedCrates rs).
         playlistTracks (trackPathIndex (scanAll trackFilter rs)) c
           = map (\<lambda>p. the (trackPathIndex (scanAll trackFilter rs) p))
               (filter (trackIncluded trackFilter) (cratePaths c)))"
proof -
  let ?st = "scanAll trackFilter rs"
  let ?seen = "firstSeen (seenPaths trackFilter rs)"
  have paths: "map track_path (trackList ?st) = ?seen"
    using scanAll_paths(2) [of trackFilter rs] by (simp add: scanPaths_def)
  have iff: "\<And>p i. trackPathIndex ?st p = Some i \<longleftrightarrow> i < length ?seen \<and> ?seen ! i = p"
    using scanAll_paths(1) [of trackFilter rs] scanAll_paths(2) [of trackFilter rs]
    by (simp add: indexed_def)
  have playlists: "playlistTracks (trackPathIndex ?st) c
           = map (\<lambda>p. the (trackPathIndex ?st p)) (filter (trackIncluded trackFilter) (cratePaths c))"
    if c: "c \<in> set (parsedCrates rs)" for c
  proof (rule playlistTracks_included, rule ballI)
    fix p
    assume p: "p \<in> set (cratePaths c)"
    have "trackPathIndex ?st p \<noteq> None \<longleftrightarrow> p \<in> set ?seen"
    proof
      assume "trackPathIndex ?st p \<noteq> None"
      then obtain i where "trackPathIndex ?st p = Some i" by auto
      with iff [of p i] show "p \<in> set ?seen" by (metis nth_mem)
    next
      assume "p \<in> set ?seen"
      then obtain i where "i < length ?seen" "?seen ! i = p"
        by (metis in_set_conv_nth)
      with iff [of p i] show "trackPathIndex ?st p \<noteq> None" by simp
    qed
    also have "\<dots> \<longleftrightarrow> trackIncluded trackFilter p"
      using p c by (auto simp: seenPaths_def)
    finally show "trackPathIndex ?st p \<noteq> None \<longleftrightarrow> trackIncluded trackFilter p" .
  qed
  show ?thesis
    using paths iff playlists scanAll_paths(3) [of trackFilter rs]
    by (simp add: scanTracks_seen_again del: scanTracks.simps)
qed

text \<open>
  Witness for C9: two crates that each hold \<open>Music/Song.mp3\<close>, scanned without a filter,
  give one entry, the index 0, and the playlist 0 for both.
\<close>

theorem scanAll_index_witness:
  "map track_path (trackList (scanAll None [Inr (songCrate [js ''A'']), Inr (songCrate [js ''B''])]))
     = [js ''Music/Song.mp3'']
   \<and> trackPathIndex (scanAll None [Inr (songCrate [js ''A'']), Inr (songCrate [js ''B''])])
        (js ''Music/Song.mp3'') = Some 0
   \<and> playlistTracks (trackPathIndex (scanAll None [Inr (songCrate [js ''A'']), Inr (songCrate [js ''B''])]))
        (songCrate [js ''A'']) = [0]
   \<and> playlistTracks (trackPathIndex (scanAll None [Inr (songCrate [js ''A'']), Inr (songCrate [js ''B''])]))
        (songCrate [js ''B'']) = [0]"
proof -
  let ?rs = "[Inr (songCrate [js ''A'']), Inr (songCrate [js ''B''])]"
  let ?st = "scanAll None ?rs"
  note index = scanAll_index [of None ?rs]
  have seen: "firstSeen (seenPaths None ?rs) = [js ''Music/Song.mp3'']"
    by (simp add: seenPaths_def cratePaths_def songCrate_def trackIncluded_def firstSeen_def)
  have paths: "map track_path (trackList ?st) = [js ''Music/Song.mp3'']"
    using index seen by simp
  have "trackPathIndex ?st (js ''Music/Song.mp3'') = Some 0
          \<longleftrightarrow> 0 < length (firstSeen (seenPaths None ?rs))
              \<and> firstSeen (seenPaths None ?rs) ! 0 = js ''Music/Song.mp3''"
    using index by blast
  with seen have first: "trackPathIndex ?st (js ''Music/Song.mp3'') = Some 0"
    by simp
  have "\<forall>c\<in>set (parsedCrates ?rs).
         playlistTracks (trackPathIndex ?st) c
           = map (\<lambda>p. the (trackPathIndex ?st p)) (filter (trackIncluded None) (cratePaths c))"
    using index by blast
  with first have lists: "playlistTracks (trackPathIndex ?st) (songCrate [js ''A'']) = [0]"
      "playlistTracks (trackPathIndex ?st) (songCrate [js ''B'']) = [0]"
    by (simp_all add: cratePaths_def trackIncluded_def) (simp_all add: songCrate_def)
  from paths first lists show ?thesis by simp
qed

text \<open>
  Counterexample to C9 as stated: with the track filter \<open>House\<close>, the path
  \<open>Music/Song.mp3\<close> of the crate is assigned no index, and the playlist is empty.
\<close>

theorem scanAll_filtered_counterexample:
  "trackList (scanAll (Some (js ''House'')) [Inr (songCrate [js ''A''])]) = []
   \<and> trackPathIndex (scanAll (Some (js ''House'')) [Inr (songCrate [js ''A''])])
        (js ''Music/Song.mp3'') = None
   \<and> playlistTracks (trackPathIndex (scanAll (Some (js ''House'')) [Inr (songCrate [js ''A''])]))
        (songCrate [js ''A'']) = []"
  by (simp add: scanAll_def emptyScan_def songCrate_def playlistTracks_def js_def)

section \<open>The playlist tree\<close>

lemmas tree_eval = buildTree_def placeCrate_def getParentFolder.simps push_child_def
  initialTree_def playlistTracks_def emptyCrate_def Let_def js_def

text \<open>
  The crates \<open>A\<close>, \<open>B\<close>, \<open>Mix1\<close> and \<open>A\<close>, \<open>C\<close>, \<open>Mix2\<close>: the root holds the folder
  \<open>A\<close> (address 2), which holds \<open>B\<close> (address 1) and \<open>C\<close> (address 3), each with its
  playlist; \<open>A\<close> is created once.
\<close>

lemma buildTree_shared_prefix:
  "heap (buildTree Map.empty
           [emptyCrate [js ''A'', js ''B'', js ''Mix1''], emptyCrate [js ''A'', js ''C'', js ''Mix2'']])
     = [\<lparr>folder_name = js ''ROOT'', folder_children = [FolderRef 2]\<rparr>,
        \<lparr>folder_name = js ''B'', folder_children = [Playlist (js ''Mix1'') []]\<rparr>,
        \<lparr>folder_name = js ''A'', folder_children = [FolderRef 1, FolderRef 3]\<rparr>,
        \<lparr>folder_name = js ''C'', folder_children = [Playlist (js ''Mix2'') []]\<rparr>]"
  by (simp add: tree_eval)

text \<open>
  The tree for names that do not meet the key of the root. When no prefix segment holds a
  slash and no prefix starts with the segment \<open>ROOT\<close>, then after \<open>buildTree\<close> the
  registry maps distinct keys to distinct folders, the playlist of every crate is a child
  of the folder of its prefix, and the folder of every non-empty prefix of a crate carries
  the last segment of the prefix as its name and is a child of the folder of the prefix
  one segment shorter, the root for a prefix of one segment. Distinct prefixes have
  distinct folders, none of them the root.
\<close>

lemma extends_refl: "extends t t"
  by (simp add: extends_def)

lemma extends_trans:
  assumes "extends t t'" and "extends t' t''"
  shows "extends t t''"
proof -
  have keys: "\<forall>k a. folders t k = Some a \<longrightarrow> folders t'' k = Some a"
    using assms by (simp add: extends_def)
  have len: "length (heap t) \<le> length (heap t'')"
    using assms by (simp add: extends_def)
  have grow: "folder_name (heap t'' ! b) = folder_name (heap t ! b)
            \<and> set (folder_children (heap t ! b)) \<subseteq> set (folder_children (heap t'' ! b))"
    if b: "b < length (heap t)" for b
  proof -
    from b assms(1) have b': "b < length (heap t')" by (simp add: extends_def)
    from assms(1) b have 1: "folder_name (heap t' ! b) = folder_name (heap t ! b)"
      "set (folder_children (heap t ! b)) \<subseteq> set (folder_children (heap t' ! b))"
      by (simp_all add: extends_def)
    from assms(2) b' have 2: "folder_name (heap t'' ! b) = folder_name (heap t' ! b)"
      "set (folder_children (heap t' ! b)) \<subseteq> set (folder_children (heap t'' ! b))"
      by (simp_all add: extends_def)
    from 1 2 show ?thesis by auto
  qed
  from keys len grow show ?thesis unfolding extends_def by blast
qed

lemma extends_push_child: "a < length (heap t) \<Longrightarrow> extends t (push_child a child t)"
  by (auto simp: extends_def push_child_def nth_list_update)

lemma wellFormed_push_child: "wellFormed t \<Longrightarrow> wellFormed (push_child a child t)"
  by (simp add: wellFormed_def push_child_def)

lemma push_child_member:
  "a < length (heap t) \<Longrightarrow> child \<in> set (folder_children (heap (push_child a child t) ! a))"
  by (simp add: push_child_def)

lemma folderOf_extends:
  "extends t t' \<Longrightarrow> folderOf t q = Some a \<Longrightarrow> folderOf t' q = Some a"
  by (auto simp: extends_def folderOf_def split: if_splits)

lemma linkedAt_extends:
  assumes "wellFormed t" and "extends t t'" and "linkedAt t q"
  shows "linkedAt t' q"
proof -
  from assms(3) obtain a pa where a: "folders t (key q) = Some a"
    and pa: "folderOf t (butlast q) = Some pa"
    and name: "folder_name (heap t ! a) = last q"
    and child: "FolderRef a \<in> set (folder_children (heap t ! pa))"
    by (auto simp: linkedAt_def)
  from assms(1) a have a_lt: "a < length (heap t)" by (auto simp: wellFormed_def)
  from assms(1) pa have pa_lt: "pa < length (heap t)"
    by (auto simp: wellFormed_def folderOf_def split: if_splits)
  from assms(2) a have "folders t' (key q) = Some a" by (auto simp: extends_def)
  moreover from assms(2) pa have "folderOf t' (butlast q) = Some pa" by (rule folderOf_extends)
  moreover from assms(2) a_lt name have "folder_name (heap t' ! a) = last q"
    by (auto simp: extends_def)
  moreover from assms(2) pa_lt child have "FolderRef a \<in> set (folder_children (heap t' ! pa))"
    by (auto simp: extends_def)
  ultimately show ?thesis by (auto simp: linkedAt_def)
qed

lemma getParentFolder_Nil:
  "getParentFolder [] t = (the (folders t (js ''ROOT'')), t)"
  by (subst getParentFolder.simps) simp

lemma getParentFolder_found:
  "p \<noteq> [] \<Longrightarrow> folders t (key p) = Some a \<Longrightarrow> getParentFolder p t = (a, t)"
  by (subst getParentFolder.simps) (simp add: key_def)

lemma getParentFolder_new:
  assumes "p \<noteq> []" and "folders t (key p) = None"
  shows "getParentFolder p t =
           (length (heap t),
            push_child (fst (getParentFolder (butlast p)
                               (t\<lparr>heap := heap t @ [\<lparr>folder_name = last p, folder_children = []\<rparr>],
                                  folders := (folders t)(key p \<mapsto> length (heap t))\<rparr>)))
              (FolderRef (length (heap t)))
              (snd (getParentFolder (butlast p)
                               (t\<lparr>heap := heap t @ [\<lparr>folder_name = last p, folder_children = []\<rparr>],
                                  folders := (folders t)(key p \<mapsto> length (heap t))\<rparr>))))"
  using assms
  by (subst getParentFolder.simps) (simp add: key_def Let_def split: prod.splits)

lemma append_sep_eq:
  assumes "d \<notin> set a" and "d \<notin> set a'" and "a @ d # b = a' @ d # b'"
  shows "a = a' \<and> b = b'"
  using assms
proof (induction a arbitrary: a')
  case Nil
  then show ?case by (cases a') auto
next
  case (Cons x xs)
  then show ?case by (cases a') auto
qed

lemma key_Cons2: "key (x # y # ys) = x @ of_char CHR ''/'' # key (y # ys)"
  by (simp add: key_def js_def)

lemma key_single: "key [x] = x"
  by (simp add: key_def)

lemma slash_in_key: "of_char CHR ''/'' \<in> set (key (x # y # ys))"
  by (simp add: key_Cons2)

lemma key_inj:
  "slashFree p \<Longrightarrow> slashFree q \<Longrightarrow> p \<noteq> [] \<Longrightarrow> q \<noteq> [] \<Longrightarrow> key p = key q \<Longrightarrow> p = q"
proof (induction p arbitrary: q)
  case Nil
  then show ?case by simp
next
  case (Cons x xs)
  from Cons.prems(4) obtain y ys where q: "q = y # ys" by (cases q) auto
  show ?case
  proof (cases xs)
    case xs: Nil
    show ?thesis
    proof (cases ys)
      case Nil
      with xs q Cons.prems(5) show ?thesis by (simp add: key_single)
    next
      case (Cons z zs)
      with xs q Cons.prems(5) have "x = key (y # z # zs)" by (simp add: key_single)
      with slash_in_key [of y z zs] Cons.prems(1) show ?thesis
        by (simp add: slashFree_def)
    qed
  next
    case xs: (Cons w ws)
    show ?thesis
    proof (cases ys)
      case Nil
      with xs q Cons.prems(5) have "y = key (x # w # ws)" by (simp add: key_single)
      with slash_in_key [of x w ws] Cons.prems(2) q show ?thesis
        by (simp add: slashFree_def)
    next
      case (Cons z zs)
      from Cons.prems(1,2) q have free: "of_char CHR ''/'' \<notin> set x" "of_char CHR ''/'' \<notin> set y"
        by (simp_all add: slashFree_def)
      from Cons.prems(5) xs q Cons
      have "x @ of_char CHR ''/'' # key (w # ws) = y @ of_char CHR ''/'' # key (z # zs)"
        by (simp add: key_Cons2)
      from append_sep_eq [OF free this] have xy: "x = y" and rest: "key xs = key ys"
        using xs Cons by simp_all
      from Cons.prems(1,2) q have "slashFree xs" "slashFree ys"
        by (simp_all add: slashFree_def)
      from Cons.IH [OF this _ _ rest] xs Cons have "xs = ys" by simp
      with xy q show ?thesis by simp
    qed
  qed
qed

lemma key_not_ROOT:
  assumes "q \<noteq> []" and "hd q \<noteq> js ''ROOT''"
  shows "key q \<noteq> js ''ROOT''"
proof (cases q)
  case Nil
  with assms show ?thesis by simp
next
  case (Cons x xs)
  show ?thesis
  proof (cases xs)
    case Nil
    with Cons assms show ?thesis by (simp add: key_single)
  next
    case (Cons y ys)
    have "of_char CHR ''/'' \<notin> set (js ''ROOT'')" by (simp add: js_def)
    with slash_in_key [of x y ys] \<open>q = x # xs\<close> Cons show ?thesis by metis
  qed
qed

lemma push_child_folders [simp]: "folders (push_child a child t) = folders t"
  by (simp add: push_child_def)

lemma push_child_length [simp]: "length (heap (push_child a child t)) = length (heap t)"
  by (simp add: push_child_def)

lemma getParentFolder_resolved:
  "wellFormed t \<Longrightarrow> resolved p t (fst (getParentFolder p t)) (snd (getParentFolder p t))"
proof (induction p arbitrary: t rule: rev_induct)
  case Nil
  then show ?case
    by (auto simp: getParentFolder_Nil resolved_def folderOf_def wellFormed_def extends_refl)
next
  case (snoc x xs)
  let ?p = "xs @ [x]"
  show ?case
  proof (cases "folders t (key ?p)")
    case (Some a)
    with snoc.prems show ?thesis
      by (auto simp: getParentFolder_found resolved_def folderOf_def extends_refl)
  next
    case None
    let ?n = "length (heap t)"
    let ?t1 = "t\<lparr>heap := heap t @ [\<lparr>folder_name = last ?p, folder_children = []\<rparr>],
                 folders := (folders t)(key ?p \<mapsto> ?n)\<rparr>"
    let ?pa = "fst (getParentFolder (butlast ?p) ?t1)"
    let ?t2 = "snd (getParentFolder (butlast ?p) ?t1)"
    let ?t' = "push_child ?pa (FolderRef ?n) ?t2"
    have result: "getParentFolder ?p t = (?n, ?t')"
      using getParentFolder_new [OF _ None] by simp
    from snoc.prems None have root: "key ?p \<noteq> js ''ROOT''"
      by (auto simp: wellFormed_def)
    have wf1: "wellFormed ?t1"
      using snoc.prems None root
      unfolding wellFormed_def by (auto simp: less_Suc_eq; fastforce)
    have ext1: "extends t ?t1"
      using None by (auto simp: extends_def nth_append)
    from snoc.IH [OF wf1] have ih: "resolved xs ?t1 ?pa ?t2" by simp
    then have wf2: "wellFormed ?t2" and pa: "folderOf ?t2 xs = Some ?pa"
      and ext2: "extends ?t1 ?t2"
      and new2: "\<forall>k. folders ?t2 k \<noteq> None \<and> folders ?t1 k = None \<longrightarrow>
             (\<exists>q r. q \<noteq> [] \<and> xs = q @ r \<and> k = key q \<and> linkedAt ?t2 q)"
      by (simp_all add: resolved_def)
    from wf2 pa have pa_lt: "?pa < length (heap ?t2)"
      by (auto simp: wellFormed_def folderOf_def split: if_splits)
    have ext3: "extends ?t2 ?t'"
      using pa_lt by (rule extends_push_child)
    have wf': "wellFormed ?t'"
      using wf2 by (rule wellFormed_push_child)
    have ext: "extends t ?t'"
      using ext1 ext2 ext3 by (blast intro: extends_trans)
    have reg2: "folders ?t2 (key ?p) = Some ?n"
      using ext2 by (simp add: extends_def)
    have reg: "folderOf ?t' ?p = Some ?n"
      using reg2 by (simp add: folderOf_def)
    have name1: "folder_name (heap ?t1 ! ?n) = x"
      by simp
    have n1: "?n < length (heap ?t1)" by simp
    have name': "folder_name (heap ?t' ! ?n) = x"
      using extends_trans [OF ext2 ext3] n1 name1 unfolding extends_def by metis
    have child: "FolderRef ?n \<in> set (folder_children (heap ?t' ! ?pa))"
      using pa_lt by (rule push_child_member)
    have pa': "folderOf ?t' xs = Some ?pa"
      using pa ext3 by (rule folderOf_extends [rotated])
    have linked_p: "linkedAt ?t' ?p"
      using reg2 pa' name' child by (auto simp: linkedAt_def)
    have new: "\<exists>q r. q \<noteq> [] \<and> ?p = q @ r \<and> k = key q \<and> linkedAt ?t' q"
      if k: "folders ?t' k \<noteq> None" "folders t k = None" for k
    proof (cases "k = key ?p")
      case True
      with linked_p show ?thesis by (intro exI [of _ ?p] exI [of _ "[]"]) simp
    next
      case False
      with k have "folders ?t2 k \<noteq> None" "folders ?t1 k = None" by simp_all
      with new2 obtain q r where q: "q \<noteq> []" "xs = q @ r" "k = key q" "linkedAt ?t2 q"
        by blast
      from linkedAt_extends [OF wf2 ext3 q(4)] q(1,2,3) show ?thesis
        by (intro exI [of _ q] exI [of _ "r @ [x]"]) simp
    qed
    from wf' reg ext new show ?thesis
      unfolding result resolved_def by simp
  qed
qed

lemma placed_extends:
  assumes "wellFormed t" and "extends t t'" and "placed index t c"
  shows "placed index t' c"
proof -
  from assms(3) obtain a where a: "folderOf t (butlast (crate_name c)) = Some a"
    and pl: "Playlist (last (crate_name c)) (playlistTracks index c)
               \<in> set (folder_children (heap t ! a))"
    by (auto simp: placed_def)
  from assms(1) a have "a < length (heap t)"
    by (auto simp: wellFormed_def folderOf_def split: if_splits)
  with assms(2) pl have "Playlist (last (crate_name c)) (playlistTracks index c)
               \<in> set (folder_children (heap t' ! a))"
    by (auto simp: extends_def)
  with folderOf_extends [OF assms(2) a] show ?thesis by (auto simp: placed_def)
qed

lemma slashFree_prefix: "slashFree (q @ r) \<Longrightarrow> slashFree q"
  by (simp add: slashFree_def)

lemma placeCrate_step:
  assumes inv: "registryLinked t" and free: "slashFree (butlast (crate_name c))"
  shows "registryLinked (placeCrate index t c) \<and> extends t (placeCrate index t c)
       \<and> placed index (placeCrate index t c) c"
proof -
  let ?parts = "butlast (crate_name c)"
  let ?pa = "fst (getParentFolder ?parts t)"
  let ?t1 = "snd (getParentFolder ?parts t)"
  let ?pl = "Playlist (last (crate_name c)) (playlistTracks index c)"
  let ?t' = "push_child ?pa ?pl ?t1"
  have result: "placeCrate index t c = ?t'"
    by (simp add: placeCrate_def Let_def split: prod.splits)
  from inv have wf: "wellFormed t" by (simp add: registryLinked_def)
  from getParentFolder_resolved [OF wf, of ?parts]
  have wf1: "wellFormed ?t1" and pa: "folderOf ?t1 ?parts = Some ?pa"
    and ext1: "extends t ?t1"
    and new1: "\<forall>k. folders ?t1 k \<noteq> None \<and> folders t k = None \<longrightarrow>
             (\<exists>q r. q \<noteq> [] \<and> ?parts = q @ r \<and> k = key q \<and> linkedAt ?t1 q)"
    by (simp_all add: resolved_def)
  from wf1 pa have pa_lt: "?pa < length (heap ?t1)"
    by (auto simp: wellFormed_def folderOf_def split: if_splits)
  have ext2: "extends ?t1 ?t'" using pa_lt by (rule extends_push_child)
  have ext: "extends t ?t'" using ext1 ext2 by (rule extends_trans)
  have wf': "wellFormed ?t'" using wf1 by (rule wellFormed_push_child)
  have linked: "\<exists>q. q \<noteq> [] \<and> slashFree q \<and> k = key q \<and> linkedAt ?t' q"
    if k: "folders ?t' k \<noteq> None" "k \<noteq> js ''ROOT''" for k
  proof (cases "folders t k")
    case (Some a)
    with inv k(2) obtain q where q: "q \<noteq> []" "slashFree q" "k = key q" "linkedAt t q"
      by (auto simp: registryLinked_def)
    from linkedAt_extends [OF wf ext q(4)] q(1,2,3) show ?thesis by blast
  next
    case None
    with k(1) new1 obtain q r where q: "q \<noteq> []" "?parts = q @ r" "k = key q" "linkedAt ?t1 q"
      by auto
    from free q(2) have "slashFree q" by (metis slashFree_prefix)
    with linkedAt_extends [OF wf1 ext2 q(4)] q(1,3) show ?thesis by blast
  qed
  have "placed index ?t' c"
    using folderOf_extends [OF ext2 pa] push_child_member [OF pa_lt, of ?pl]
    by (auto simp: placed_def)
  with wf' linked ext show ?thesis
    unfolding result registryLinked_def by blast
qed

lemma registryLinked_initialTree: "registryLinked initialTree"
  by (auto simp: registryLinked_def wellFormed_def initialTree_def split: if_splits)

lemma buildTree_invariant:
  assumes "\<forall>c\<in>set crates. slashFree (butlast (crate_name c))"
  shows "registryLinked (buildTree index crates)
       \<and> (\<forall>c\<in>set crates. placed index (buildTree index crates) c)"
  using assms
proof (induction crates rule: rev_induct)
  case Nil
  show ?case by (simp add: buildTree_def registryLinked_initialTree)
next
  case (snoc c crates)
  let ?t = "buildTree index crates"
  have step: "buildTree index (crates @ [c]) = placeCrate index ?t c"
    by (simp add: buildTree_def)
  from snoc have inv: "registryLinked ?t" and before: "\<forall>d\<in>set crates. placed index ?t d"
    and free: "slashFree (butlast (crate_name c))"
    by simp_all
  from placeCrate_step [OF inv free, of index]
  have inv': "registryLinked (placeCrate index ?t c)"
    and ext: "extends ?t (placeCrate index ?t c)"
    and here: "placed index (placeCrate index ?t c) c"
    by simp_all
  from inv have wf: "wellFormed ?t" by (simp add: registryLinked_def)
  from before placed_extends [OF wf ext]
  have "\<forall>d\<in>set crates. placed index (placeCrate index ?t c) d" by blast
  with inv' here show ?case unfolding step by simp
qed

lemma registered_linked:
  assumes inv: "registryLinked t" and free: "slashFree q" and q: "q \<noteq> []"
      and root: "hd q \<noteq> js ''ROOT''" and reg: "folders t (key q) \<noteq> None"
  shows "linkedAt t q"
proof -
  from key_not_ROOT [OF q root] inv reg obtain q' where
    q': "q' \<noteq> []" "slashFree q'" "key q = key q'" "linkedAt t q'"
    by (auto simp: registryLinked_def)
  from key_inj [OF free q'(2) q q'(1) q'(3)] q'(4) show ?thesis by simp
qed

lemma prefixes_linked:
  assumes inv: "registryLinked t"
  shows "slashFree (q @ r) \<Longrightarrow> q \<noteq> [] \<Longrightarrow> hd q \<noteq> js ''ROOT''
         \<Longrightarrow> folders t (key (q @ r)) \<noteq> None \<Longrightarrow> linkedAt t q"
proof (induction r arbitrary: q)
  case Nil
  with registered_linked [OF inv, of q] show ?case by simp
next
  case (Cons s r)
  from Cons.IH [of "q @ [s]"] Cons.prems have "linkedAt t (q @ [s])" by simp
  then have "folderOf t q \<noteq> None" by (auto simp: linkedAt_def)
  with Cons.prems(2) have "folders t (key q) \<noteq> None" by (simp add: folderOf_def)
  with registered_linked [OF inv slashFree_prefix [OF Cons.prems(1)] Cons.prems(2,3)]
  show ?case by simp
qed

lemma buildTree_folders:
  assumes names: "\<forall>c\<in>set crates. slashFree (butlast (crate_name c))
                    \<and> (butlast (crate_name c) \<noteq> [] \<longrightarrow> hd (crate_name c) \<noteq> js ''ROOT'')"
      and c: "c \<in> set crates"
  shows "wellFormed (buildTree index crates)
       \<and> placed index (buildTree index crates) c
       \<and> (\<forall>q r. q \<noteq> [] \<and> butlast (crate_name c) = q @ r \<longrightarrow> linkedAt (buildTree index crates) q)"
proof -
  let ?t = "buildTree index crates"
  let ?parts = "butlast (crate_name c)"
  from names have "\<forall>c\<in>set crates. slashFree (butlast (crate_name c))" by simp
  from buildTree_invariant [OF this, of index] c
  have inv: "registryLinked ?t" and here: "placed index ?t c" by simp_all
  have "linkedAt ?t q" if q: "q \<noteq> []" "?parts = q @ r" for q r
  proof -
    from q have nonempty: "?parts \<noteq> []" by simp
    from here nonempty have reg: "folders ?t (key (q @ r)) \<noteq> None"
      using q(2) by (auto simp: placed_def folderOf_def)
    from names c q(2) have free: "slashFree (q @ r)" by auto
    from names c nonempty have "hd (crate_name c) \<noteq> js ''ROOT''" by auto
    moreover have "hd (crate_name c) = hd ?parts"
      using nonempty by (cases "crate_name c" rule: rev_cases) (auto simp: hd_append)
    ultimately have "hd q \<noteq> js ''ROOT''" using q by simp
    from prefixes_linked [OF inv free q(1) this reg] show ?thesis .
  qed
  with inv here show ?thesis by (auto simp: registryLinked_def)
qed

lemma distinct_prefixes_distinct_folders:
  assumes "wellFormed t" and "slashFree q" and "slashFree q'" and "q \<noteq> []" and "q' \<noteq> []"
      and "folders t (key q) = Some a" and "folders t (key q') = Some a"
  shows "q = q'"
proof -
  from assms(1,6,7) have "key q = key q'" unfolding wellFormed_def by blast
  with key_inj [OF assms(2,3,4,5)] show ?thesis by simp
qed

lemma prefix_folder_not_root:
  assumes "wellFormed t" and "q \<noteq> []" and "hd q \<noteq> js ''ROOT''"
      and "folders t (key q) = Some a"
  shows "a \<noteq> 0"
proof
  assume "a = 0"
  with assms(1,4) have "key q = js ''ROOT''" unfolding wellFormed_def by blast
  with key_not_ROOT [OF assms(2,3)] show False by simp
qed

text \<open>
  C10 at the crates \<open>ROOT\<close>, \<open>Mix1\<close> and \<open>Mix2\<close>. The prefix \<open>ROOT\<close> of the first crate
  is a folder of its own in the claim, created on demand under the root. In the code the
  registry key of that prefix is the key under which the root itself is registered, so
  \<open>getParentFolder\<close> returns the root for it, as for the empty prefix: no folder is
  created, and both playlists hang directly under the root.
\<close>

theorem buildTree_ROOT_prefix:
  "heap (buildTree Map.empty [emptyCrate [js ''ROOT'', js ''Mix1''], emptyCrate [js ''Mix2'']])
     = [\<lparr>folder_name = js ''ROOT'',
         folder_children = [Playlist (js ''Mix1'') [], Playlist (js ''Mix2'') []]\<rparr>]
   \<and> fst (getParentFolder [js ''ROOT''] initialTree) = fst (getParentFolder [] initialTree)"
  by (simp add: tree_eval)

end
